theory Spec2Isabelle
  imports Complex_Main "HOL-Library.Log_Nat"
begin

section \<open>The event store (createDataStore, main.mjs lines 7-42)\<close>

text \<open>
  A callback is a JavaScript function object; the store only ever compares callbacks by
  identity, so a callback is modelled by an identifier. A \<open>Set\<close> object is modelled the way
  ECMAScript specifies it: a list of entries in insertion order, in which \<open>delete\<close>
  replaces an entry by the marker \<open>empty\<close> (here \<open>None\<close>) and \<open>add\<close> appends.
  \<open>listeners\<close> maps an event name to a reference to such an object, so Set objects live
  in an explicit heap: \<open>emit\<close> keeps iterating the object it fetched even when \<open>off\<close> has
  meanwhile dropped the event name from \<open>listeners\<close>.
\<close>

type_synonym cb = nat
type_synonym addr = nat
type_synonym jsset = "cb option list"

text \<open>\<open>Set.prototype.add\<close>, \<open>Set.prototype.delete\<close> and \<open>Set.prototype.size\<close>.\<close>

definition set_add :: "cb \<Rightarrow> jsset \<Rightarrow> jsset" where
  "set_add c es = (if Some c \<in> set es then es else es @ [Some c])"

definition set_delete :: "cb \<Rightarrow> jsset \<Rightarrow> jsset" where
  "set_delete c es = map (\<lambda>x. if x = Some c then None else x) es"

text \<open>The members of a Set object, in insertion order.\<close>

fun members :: "jsset \<Rightarrow> cb list" where
  "members [] = []"
| "members (None # es) = members es"
| "members (Some c # es) = c # members es"

definition set_size :: "jsset \<Rightarrow> nat" where
  "set_size es = length (members es)"

text \<open>
  The state of one store: the two maps of the closure (\<open>values\<close> is a reserved word of
  Isabelle, so the first is \<open>values_map\<close>), the heap of Set objects with the next unused
  address, and \<open>calls\<close>, a log of the callback invocations (callback and argument) in
  the order they happen. The log is the only part that is not in the source; it is what
  the properties of delivery speak of.
\<close>

record 'v store =
  values_map :: "string \<rightharpoonup> 'v"
  listeners :: "string \<rightharpoonup> addr"
  heap :: "addr \<Rightarrow> jsset"
  next_addr :: addr
  calls :: "(cb \<times> 'v) list"

definition createDataStore :: "'v store" where
  "createDataStore =
     \<lparr>values_map = Map.empty, listeners = Map.empty, heap = (\<lambda>_. []), next_addr = 0, calls = []\<rparr>"

text \<open>
  What a callback does when it is invoked: a finite sequence of calls of the store's own
  interface, \<open>on\<close>, \<open>off\<close> and \<open>set\<close>. A program assigns to every callback and
  argument the calls it makes.
\<close>

datatype 'v op = CallOn string cb | CallOff string cb | CallSet string 'v

type_synonym 'v bodies = "cb \<Rightarrow> 'v \<Rightarrow> 'v op list"

text \<open>Lines 20-25: \<open>on\<close> creates the Set of an unknown event name, then adds.\<close>

definition on :: "string \<Rightarrow> cb \<Rightarrow> 'v store \<Rightarrow> 'v store" where
  "on eventName callback s =
     (case listeners s eventName of
        None \<Rightarrow>
          s\<lparr>listeners := (listeners s)(eventName \<mapsto> next_addr s),
            heap := (heap s)(next_addr s := set_add callback []),
            next_addr := Suc (next_addr s)\<rparr>
      | Some a \<Rightarrow> s\<lparr>heap := (heap s)(a := set_add callback (heap s a))\<rparr>)"

text \<open>Lines 26-35: \<open>off\<close> returns at once for an unknown event name; otherwise it
  deletes from the Set and drops the event name when the Set has become empty.\<close>

definition off :: "string \<Rightarrow> cb \<Rightarrow> 'v store \<Rightarrow> 'v store" where
  "off eventName callback s =
     (case listeners s eventName of
        None \<Rightarrow> s
      | Some a \<Rightarrow>
          (let s1 = s\<lparr>heap := (heap s)(a := set_delete callback (heap s a))\<rparr>
           in if set_size (heap s1 a) = 0
              then s1\<lparr>listeners := (listeners s1)(eventName := None)\<rparr>
              else s1))"

text \<open>Line 40.\<close>

definition get :: "string \<Rightarrow> 'v store \<Rightarrow> 'v option" where
  "get key s = values_map s key"

text \<open>
  \<open>forEach n B a i v s\<close> is \<open>Set.prototype.forEach\<close> on the Set object at address \<open>a\<close>,
  from entry \<open>i\<close> on: the number of entries is read again after every callback, an
  \<open>empty\<close> entry is skipped, any other entry is invoked with \<open>v\<close>. \<open>exec\<close> runs the calls
  a callback (or the main program) makes; its last equation is \<open>set\<close> (lines 36-39) with
  \<open>emit\<close> (lines 11-17) inlined. A callback may register itself again for ever, or set
  its own key again, so the pass need not end: the first argument bounds the number of
  entries visited, and \<open>None\<close> means that the bound was reached.
\<close>

fun forEach :: "nat \<Rightarrow> 'v bodies \<Rightarrow> addr \<Rightarrow> nat \<Rightarrow> 'v \<Rightarrow> 'v store \<Rightarrow> 'v store option"
  and exec :: "nat \<Rightarrow> 'v bodies \<Rightarrow> 'v op list \<Rightarrow> 'v store \<Rightarrow> 'v store option"
where
  "forEach 0 B a i v s = (if i < length (heap s a) then None else Some s)"
| "forEach (Suc n) B a i v s =
     (if i < length (heap s a) then
        (case heap s a ! i of
           None \<Rightarrow> forEach n B a (Suc i) v s
         | Some c \<Rightarrow>
             (case exec n B (B c v) (s\<lparr>calls := calls s @ [(c, v)]\<rparr>) of
                None \<Rightarrow> None
              | Some s' \<Rightarrow> forEach n B a (Suc i) v s'))
      else Some s)"
| "exec n B [] s = Some s"
| "exec n B (CallOn e c # ops) s = exec n B ops (on e c s)"
| "exec n B (CallOff e c # ops) s = exec n B ops (off e c s)"
| "exec n B (CallSet k v # ops) s =
     (case (case listeners s (k @ '':set'') of
              None \<Rightarrow> Some (s\<lparr>values_map := (values_map s)(k \<mapsto> v)\<rparr>)
            | Some a \<Rightarrow> forEach n B a 0 v (s\<lparr>values_map := (values_map s)(k \<mapsto> v)\<rparr>)) of
        None \<Rightarrow> None
      | Some s' \<Rightarrow> exec n B ops s')"

text \<open>Lines 11-17 and 36-39 on their own, for a call from the main program (\<open>set\<close>
  is \<open>set_key\<close> here).\<close>

definition emit :: "nat \<Rightarrow> 'v bodies \<Rightarrow> string \<Rightarrow> 'v \<Rightarrow> 'v store \<Rightarrow> 'v store option" where
  "emit n B eventName v s =
     (case listeners s eventName of
        None \<Rightarrow> Some s
      | Some a \<Rightarrow> forEach n B a 0 v s)"

definition set_key :: "nat \<Rightarrow> 'v bodies \<Rightarrow> string \<Rightarrow> 'v \<Rightarrow> 'v store \<Rightarrow> 'v store option" where
  "set_key n B key v s = emit n B (key @ '':set'') v (s\<lparr>values_map := (values_map s)(key \<mapsto> v)\<rparr>)"

text \<open>The invocations a run has added to the log.\<close>

definition new_calls :: "'v store \<Rightarrow> 'v store \<Rightarrow> (cb \<times> 'v) list" where
  "new_calls s s' = drop (length (calls s)) (calls s')"

subsection \<open>Notions for stating the properties\<close>

text \<open>The callbacks registered for an event, in registration order.\<close>

definition registered :: "'v store \<Rightarrow> string \<Rightarrow> cb list" where
  "registered s e = (case listeners s e of None \<Rightarrow> [] | Some a \<Rightarrow> members (heap s a))"

text \<open>What any run does to the heap and the log: Set objects that exist only grow,
  an entry stays or becomes \<open>empty\<close>, the log is extended.\<close>

definition evolves :: "'v store \<Rightarrow> 'v store \<Rightarrow> bool" where
  "evolves s s' \<longleftrightarrow>
     next_addr s \<le> next_addr s' \<and>
     (\<forall>a<next_addr s. length (heap s a) \<le> length (heap s' a) \<and>
        (\<forall>j<length (heap s a). heap s' a ! j = heap s a ! j \<or> heap s' a ! j = None)) \<and>
     (\<exists>xs. calls s' = calls s @ xs)"

text \<open>The invariant of the listener mapping: every event name refers to an allocated,
  non-empty Set object of its own, without repeated members.\<close>

definition store_inv :: "'v store \<Rightarrow> bool" where
  "store_inv s \<longleftrightarrow>
     (\<forall>e a. listeners s e = Some a \<longrightarrow>
        members (heap s a) \<noteq> [] \<and> distinct (members (heap s a)) \<and> a < next_addr s \<and>
        (\<forall>e'. listeners s e' = Some a \<longrightarrow> e' = e))"








subsection \<open>Example programs and stores\<close>

definition adder :: "int bodies" where
  "adder c v = (if c = 0 then [CallOn ''k:set'' 1] else [])"







definition observers :: "int bodies" where
  "observers c v = []"

definition one_listener :: "int store" where
  "one_listener = on ''k:set'' 0 createDataStore"



definition history :: "int op list" where
  "history = [CallOn ''k:set'' 0, CallOn ''k:set'' 1, CallOn ''k:set'' 0, CallOn ''other:set'' 2,
     CallSet ''other'' 9, CallOn ''gone'' 3, CallOff ''gone'' 3]"


section \<open>JavaScript numbers\<close>

text \<open>
  A JavaScript number is an IEEE 754 double. A finite double is modelled by the rational
  number it denotes, and every arithmetic operation of the source by the exact operation
  on rationals followed by \<open>fl\<close>, the rounding to the nearest double with ties to the
  even significand: 53 significant bits, and below \<open>2 powi - 1022\<close> the fixed spacing
  \<open>2 powi - 1074\<close> of the subnormal numbers. Two things are left out. The zeros
  \<open>+0\<close> and \<open>-0\<close> are one number: the operations used here (comparison, addition,
  multiplication, division by a non-zero constant, \<open>Math.round\<close>) give equal results
  for both up to the sign of a zero. Overflow to \<open>Infinity\<close> is not modelled: \<open>fl\<close> is
  the rounding of IEEE 754 for arguments below \<open>2 ^ 1024 - 2 ^ 970\<close> in absolute value.
  In \<open>clampTime\<close> every intermediate value is at most 100; in the clock the accumulator
  is a sum of half frame times.
\<close>

definition round_ties_even :: "rat \<Rightarrow> int" where
  "round_ties_even t =
     (let f = \<lfloor>t\<rfloor>; r = t - of_int f
      in if r < 1 / 2 then f else if 1 / 2 < r then f + 1 else if even f then f else f + 1)"

text \<open>\<open>binade x\<close> is the exponent \<open>e\<close> with \<open>2 powi e \<le> \<bar>x\<bar> < 2 powi (e + 1)\<close>, for
  \<open>x \<noteq> 0\<close>; \<open>ulp_exp x\<close> is the exponent of the spacing of the doubles around \<open>x\<close>.\<close>

definition binade :: "rat \<Rightarrow> int" where
  "binade x =
     (if 1 \<le> \<bar>x\<bar> then bitlen \<lfloor>\<bar>x\<bar>\<rfloor> - 1
      else - bitlen (\<lceil>1 / \<bar>x\<bar>\<rceil> - 1))"

definition ulp_exp :: "rat \<Rightarrow> int" where
  "ulp_exp x = max (binade x) (- 1022) - 52"

definition fl :: "rat \<Rightarrow> rat" where
  "fl x = (if x = 0 then 0 else of_int (round_ties_even (x / 2 powi ulp_exp x)) * 2 powi ulp_exp x)"

text \<open>The operators \<open>+\<close>, \<open>-\<close>, \<open>*\<close> and \<open>/\<close> of the source.\<close>

definition fadd :: "rat \<Rightarrow> rat \<Rightarrow> rat" where
  "fadd x y = fl (x + y)"

definition fsub :: "rat \<Rightarrow> rat \<Rightarrow> rat" where
  "fsub x y = fl (x - y)"

definition fmul :: "rat \<Rightarrow> rat \<Rightarrow> rat" where
  "fmul x y = fl (x * y)"

definition fdiv :: "rat \<Rightarrow> rat \<Rightarrow> rat" where
  "fdiv x y = fl (x / y)"

text \<open>A number that may fail \<open>Number.isFinite\<close>.\<close>

datatype jsnum = Num rat | PosInf | NegInf | NaN

text \<open>\<open>Math.round\<close>: the nearest integer, a tie going up. It is exact.\<close>

definition math_round :: "rat \<Rightarrow> rat" where
  "math_round x = of_int \<lfloor>x + 1 / 2\<rfloor>"

text \<open>
  Modelled from the spec: \<open>pc.math.clamp\<close> belongs to the PlayCanvas engine, whose
  source is not part of this repository. The spec has \<open>clampTime\<close> "clamp to
  \<open>[MIN, MAX]\<close>" with it: a value at or above the upper bound gives the upper bound, a
  value at or below the lower bound gives the lower bound, any other value is returned.
\<close>

definition clamp :: "rat \<Rightarrow> rat \<Rightarrow> rat \<Rightarrow> rat" where
  "clamp v lo hi = (if hi \<le> v then hi else if v \<le> lo then lo else v)"

section \<open>The timeline controller and the autoplay clock (main.mjs lines 206-211, 373-463)\<close>

text \<open>Lines 206-211. The literal \<open>0.02\<close> denotes the double nearest to \<open>2 / 100\<close>.\<close>

definition TIMELINE_MIN :: rat where
  "TIMELINE_MIN = 0"

definition TIMELINE_MAX :: rat where
  "TIMELINE_MAX = 2"

definition TIMELINE_STEP :: rat where
  "TIMELINE_STEP = fl (2 / 100)"

definition SEGMENT_DURATION :: rat where
  "SEGMENT_DURATION = 2"

definition SEGMENT_MAX :: rat where
  "SEGMENT_MAX = fsub SEGMENT_DURATION TIMELINE_STEP"

definition AUTOPLAY_INTERVAL :: rat where
  "AUTOPLAY_INTERVAL = TIMELINE_STEP"

text \<open>Lines 386-391.\<close>

definition clampTime :: "jsnum \<Rightarrow> rat" where
  "clampTime v =
     (let numericValue = (case v of Num x \<Rightarrow> x | _ \<Rightarrow> TIMELINE_MIN);
          clamped = clamp numericValue TIMELINE_MIN TIMELINE_MAX;
          snapped = fmul (math_round (fdiv clamped TIMELINE_STEP)) TIMELINE_STEP
      in clamp snapped TIMELINE_MIN (fsub TIMELINE_MAX TIMELINE_STEP))"

text \<open>The number of the step that \<open>clampTime\<close> snaps to: the value of
  \<open>Math.round(clamped / TIMELINE_STEP)\<close> in line 389.\<close>

definition snap_index :: "jsnum \<Rightarrow> int" where
  "snap_index v =
     \<lfloor>fdiv (clamp (case v of Num x \<Rightarrow> x | _ \<Rightarrow> TIMELINE_MIN) TIMELINE_MIN TIMELINE_MAX)
         TIMELINE_STEP + 1 / 2\<rfloor>"

text \<open>
  The variables of lines 373-376, with two logs that the source does not have:
  \<open>writes\<close>, the calls of \<open>data.set\<close> in the order they are made, and \<open>forwarded\<close>,
  the values handed to \<open>applyDynamicToEntity(gs1, \<dots>)\<close>. The slider and its label (lines
  393-400) are not modelled.
\<close>

record timeline =
  isDragging :: bool
  autoplayAccumulator :: rat
  currentTimelineValue :: rat
  isPaused :: bool
  writes :: "(string \<times> rat) list"
  forwarded :: "rat list"

text \<open>Lines 402-417.\<close>

definition snapSegmentValue :: "rat \<Rightarrow> rat" where
  "snapSegmentValue v =
     (let clamped = clamp v TIMELINE_MIN SEGMENT_MAX
      in fmul (math_round (fdiv clamped TIMELINE_STEP)) TIMELINE_STEP)"

definition updatePlaybackState :: "rat \<Rightarrow> timeline \<Rightarrow> timeline" where
  "updatePlaybackState timelineValue s =
     s\<lparr>forwarded := forwarded s @ [snapSegmentValue timelineValue]\<rparr>"

definition applyTimelineValue :: "jsnum \<Rightarrow> timeline \<Rightarrow> timeline" where
  "applyTimelineValue rawValue s =
     (let timelineValue = clampTime rawValue
      in updatePlaybackState timelineValue (s\<lparr>currentTimelineValue := timelineValue\<rparr>))"

text \<open>
  Lines 419-422: \<open>timelineHandler\<close> is registered for \<open>timeline.uTime:set\<close> once, and is
  the only callback this program ever registers with the store. \<open>data.set('timeline.uTime',
  v)\<close> therefore is: log the write, then run the handler.
\<close>

definition timelineHandler :: "jsnum \<Rightarrow> timeline \<Rightarrow> timeline" where
  "timelineHandler v s = applyTimelineValue v s"

definition data_set_uTime :: "rat \<Rightarrow> timeline \<Rightarrow> timeline" where
  "data_set_uTime v s = timelineHandler (Num v) (s\<lparr>writes := writes s @ [(''timeline.uTime'', v)]\<rparr>)"

text \<open>Lines 424-429, without the button's text.\<close>

definition setPlaybackPaused :: "bool \<Rightarrow> timeline \<Rightarrow> timeline" where
  "setPlaybackPaused paused s = s\<lparr>isPaused := paused, autoplayAccumulator := 0\<rparr>"

text \<open>Lines 447-463. \<open>dt\<close> is the frame time, a finite double.\<close>

definition onUpdate :: "rat \<Rightarrow> timeline \<Rightarrow> timeline" where
  "onUpdate dt s =
     (if isDragging s \<or> isPaused s then s\<lparr>autoplayAccumulator := 0\<rparr>
      else
        (let acc = fadd (autoplayAccumulator s) (fmul dt (1 / 2))
         in if AUTOPLAY_INTERVAL \<le> acc then
              (let nextValue = fadd (currentTimelineValue s) TIMELINE_STEP;
                   nextValue' = (if fsub TIMELINE_MAX TIMELINE_STEP < nextValue
                                 then TIMELINE_MIN else nextValue)
               in data_set_uTime nextValue' (s\<lparr>autoplayAccumulator := fsub acc AUTOPLAY_INTERVAL\<rparr>))
            else s\<lparr>autoplayAccumulator := acc\<rparr>))"

text \<open>A sequence of frames, and the accumulator it would build up from \<open>a\<close> if no step
  were taken.\<close>

fun run_ticks :: "rat list \<Rightarrow> timeline \<Rightarrow> timeline" where
  "run_ticks [] s = s"
| "run_ticks (dt # dts) s = run_ticks dts (onUpdate dt s)"

fun accumulated :: "rat \<Rightarrow> rat list \<Rightarrow> rat" where
  "accumulated a [] = a"
| "accumulated a (dt # dts) = accumulated (fadd a (fmul dt (1 / 2))) dts"

text \<open>The state while autoplay runs, at a given timeline value, and a frame of 16 ms.\<close>

definition playing_at :: "rat \<Rightarrow> timeline" where
  "playing_at v = \<lparr>isDragging = False, autoplayAccumulator = 0, currentTimelineValue = v,
     isPaused = False, writes = [], forwarded = []\<rparr>"

definition frame_16ms :: rat where
  "frame_16ms = fl (16 / 1000)"

section \<open>The render sink (main.mjs lines 378-384)\<close>

text \<open>
  The objects \<open>applyDynamicToEntity\<close> reads. A property that is \<open>undefined\<close> or
  \<open>null\<close> is \<open>None\<close>; the fields are \<open>entity.gsplat\<close>, and \<open>instance\<close>,
  \<open>enabled\<close> and \<open>entity\<close> of the component, and \<open>enabled\<close> of that entity. The
  instance is an opaque handle that has the method \<open>applyDynamicState\<close>; the result lists the calls of that method, or is the
  \<open>TypeError\<close> that reading a property of \<open>undefined\<close> raises.
\<close>

datatype js_error = TypeError

record node =
  node_enabled :: "bool option"

record gsplat_component =
  gs_instance :: "nat option"
  gs_enabled :: "bool option"
  gs_entity :: "node option"

record render_target =
  gsplat :: "gsplat_component option"

text \<open>The truth value that \<open>!\<close> negates.\<close>

definition truthy :: "bool option \<Rightarrow> bool" where
  "truthy b = (b = Some True)"

text \<open>
  Line 379 is the first \<open>let\<close>. In line 380, \<open>entity.gsplat?.enabled\<close> and
  \<open>entity.gsplat?.entity.enabled\<close> read \<open>entity.gsplat\<close> without \<open>?.\<close>, and the
  second reads \<open>.enabled\<close> of \<open>gsplat.entity\<close> without \<open>?.\<close>.
\<close>

definition applyDynamicToEntity ::
    "render_target option \<Rightarrow> 'v \<Rightarrow> js_error + (nat \<times> 'v) list" where
  "applyDynamicToEntity entity v =
     (let instance =
        (case entity of None \<Rightarrow> None
         | Some e \<Rightarrow> (case gsplat e of None \<Rightarrow> None | Some g \<Rightarrow> gs_instance g))
      in case instance of
           None \<Rightarrow> Inr []
         | Some i \<Rightarrow>
             (case entity of
                None \<Rightarrow> Inl TypeError
              | Some e \<Rightarrow>
                  (case gsplat e of
                     None \<Rightarrow> Inr []
                   | Some g \<Rightarrow>
                       if \<not> truthy (gs_enabled g) then Inr []
                       else (case gs_entity g of
                               None \<Rightarrow> Inl TypeError
                             | Some n \<Rightarrow>
                                 if \<not> truthy (node_enabled n) then Inr []
                                 else Inr [(i, v)]))))"

text \<open>
  The one shape of target for which line 380 reads \<open>.enabled\<close> of \<open>undefined\<close>: a
  component that has an instance and a true \<open>enabled\<close> flag but no owning entity. For
  every other target one of the operands of \<open>||\<close> to the left of that read is
  true, or the owning entity is there. \<open>ready\<close> is the instance of a target that is
  present and enabled throughout.
\<close>

definition detached :: "render_target option \<Rightarrow> bool" where
  "detached entity =
     (case entity of None \<Rightarrow> False
      | Some e \<Rightarrow>
          (case gsplat e of None \<Rightarrow> False
           | Some g \<Rightarrow> gs_instance g \<noteq> None \<and> truthy (gs_enabled g) \<and> gs_entity g = None))"

definition ready :: "render_target option \<Rightarrow> nat option" where
  "ready entity =
     (case entity of None \<Rightarrow> None
      | Some e \<Rightarrow>
          (case gsplat e of None \<Rightarrow> None
           | Some g \<Rightarrow>
               (case gs_entity g of None \<Rightarrow> None
                | Some n \<Rightarrow>
                    if gs_enabled g = Some True \<and> node_enabled n = Some True
                    then gs_instance g else None)))"

text \<open>
  Modelled from the spec: the entity and component classes belong to the PlayCanvas
  engine, whose source is not part of this repository. The spec has the render target
  "an opaque handle exposing an enabled flag, a nested component enabled flag, and an
  \<open>applyDynamicState\<close> method". \<open>attached en component\<close> is a target as \<open>createEntity\<close>
  (lines 179-189) builds it: an entity with the enabled flag \<open>en\<close> and, when it has the
  component, a component with its instance and its enabled flag whose \<open>entity\<close> is the
  entity that it was added to.
\<close>

definition attached :: "bool option \<Rightarrow> (nat option \<times> bool option) option \<Rightarrow> render_target" where
  "attached en component =
     \<lparr>gsplat =
        (case component of
           None \<Rightarrow> None
         | Some (inst, cen) \<Rightarrow>
             Some \<lparr>gs_instance = inst, gs_enabled = cen,
                   gs_entity = Some \<lparr>node_enabled = en\<rparr>\<rparr>)\<rparr>"

definition orphan :: "render_target" where
  "orphan = \<lparr>gsplat = Some \<lparr>gs_instance = Some 0, gs_enabled = Some True, gs_entity = None\<rparr>\<rparr>"

definition live_target :: "render_target" where
  "live_target = \<lparr>gsplat = Some \<lparr>gs_instance = Some 0, gs_enabled = Some True,
     gs_entity = Some \<lparr>node_enabled = Some True\<rparr>\<rparr>\<rparr>"

definition disabled_target :: "render_target" where
  "disabled_target = \<lparr>gsplat = Some \<lparr>gs_instance = Some 0, gs_enabled = Some True,
     gs_entity = Some \<lparr>node_enabled = Some False\<rparr>\<rparr>\<rparr>"

definition torn_down :: "render_target" where
  "torn_down = \<lparr>gsplat = Some \<lparr>gs_instance = None, gs_enabled = Some True, gs_entity = None\<rparr>\<rparr>"

definition switched_off :: "render_target" where
  "switched_off = \<lparr>gsplat = Some \<lparr>gs_instance = Some 0, gs_enabled = Some False,
     gs_entity = None\<rparr>\<rparr>"

definition bare :: "render_target" where
  "bare = \<lparr>gsplat = None\<rparr>"

section \<open>Properties of the event store\<close>


subsection \<open>Set objects\<close>

lemma mem_members: "c \<in> set (members es) \<longleftrightarrow> Some c \<in> set es"
  by (induction es rule: members.induct) auto

lemma members_append: "members (xs @ ys) = members xs @ members ys"
  by (induction xs rule: members.induct) auto

lemma members_set_add:
  "members (set_add c es) = (if c \<in> set (members es) then members es else members es @ [c])"
  by (simp add: set_add_def mem_members members_append)

lemma members_set_delete: "members (set_delete c es) = removeAll c (members es)"
  by (induction es rule: members.induct) (auto simp: set_delete_def)

lemma length_set_delete: "length (set_delete c es) = length es"
  by (simp add: set_delete_def)

lemma nth_set_delete:
  "j < length es \<Longrightarrow> set_delete c es ! j = es ! j \<or> set_delete c es ! j = None"
  by (simp add: set_delete_def)





lemma set_add_subset: "Some d \<in> set (set_add c es) \<Longrightarrow> d = c \<or> Some d \<in> set es"
  by (auto simp: set_add_def split: if_splits)

subsection \<open>How a run changes the heap and the log\<close>

lemma evolves_refl: "evolves s s"
  by (simp add: evolves_def)

lemma evolves_trans:
  assumes "evolves s s'" and "evolves s' s''"
  shows "evolves s s''"
proof -
  have n: "next_addr s \<le> next_addr s'" "next_addr s' \<le> next_addr s''"
    using assms by (simp_all add: evolves_def)
  have c: "\<exists>xs. calls s'' = calls s @ xs"
    using assms by (auto simp: evolves_def)
  have h: "length (heap s a) \<le> length (heap s'' a) \<and>
        (\<forall>j<length (heap s a). heap s'' a ! j = heap s a ! j \<or> heap s'' a ! j = None)"
    if a: "a < next_addr s" for a
  proof -
    have a': "a < next_addr s'" using a n by simp
    have l1: "length (heap s a) \<le> length (heap s' a)"
      and l2: "length (heap s' a) \<le> length (heap s'' a)"
      using assms a a' by (simp_all add: evolves_def)
    have e1: "heap s' a ! j = heap s a ! j \<or> heap s' a ! j = None" if "j < length (heap s a)" for j
      using assms(1) a that by (simp add: evolves_def)
    have e2: "heap s'' a ! j = heap s' a ! j \<or> heap s'' a ! j = None" if "j < length (heap s' a)" for j
      using assms(2) a' that by (simp add: evolves_def)
    show ?thesis
    proof (intro conjI allI impI)
      show "length (heap s a) \<le> length (heap s'' a)" using l1 l2 by simp
    next
      fix j assume j: "j < length (heap s a)"
      then have "j < length (heap s' a)" using l1 by simp
      from e1[OF j] e2[OF this]
      show "heap s'' a ! j = heap s a ! j \<or> heap s'' a ! j = None" by auto
    qed
  qed
  show ?thesis
    unfolding evolves_def using n c h by auto
qed

lemma length_set_add: "length es \<le> length (set_add c es)"
  by (simp add: set_add_def)

lemma nth_set_add: "j < length es \<Longrightarrow> set_add c es ! j = es ! j"
  by (simp add: set_add_def nth_append)

lemma evolves_on: "evolves s (on e c s)"
  by (auto simp: evolves_def on_def length_set_add nth_set_add split: option.splits)

lemma evolves_off: "evolves s (off e c s)"
  by (auto simp: evolves_def off_def Let_def length_set_delete nth_set_delete split: option.splits)

lemma evolves_log: "evolves s (s\<lparr>calls := calls s @ xs\<rparr>)"
  by (simp add: evolves_def)

lemma evolves_values: "evolves s (s\<lparr>values_map := m\<rparr>)"
  by (simp add: evolves_def)

lemma forEach_exec_evolves:
  shows "forEach n B a i v s = Some s' \<Longrightarrow> evolves s s'"
    and "exec n B ops s = Some s' \<Longrightarrow> evolves s s'"
proof (induction n B a i v s and n B ops s arbitrary: s' and s' rule: forEach_exec.induct)
  case (1 B a i v s)
  then show ?case by (auto simp: evolves_refl split: if_splits)
next
  case (2 n B a i v s)
  show ?case
  proof (cases "i < length (heap s a)")
    case False
    with "2.prems" show ?thesis by (simp add: evolves_refl)
  next
    case True
    show ?thesis
    proof (cases "heap s a ! i")
      case None
      with True "2.prems" have "forEach n B a (Suc i) v s = Some s'" by simp
      with "2.IH"(1)[OF True None] show ?thesis by simp
    next
      case (Some c)
      with True "2.prems" obtain s1 where
        e: "exec n B (B c v) (s\<lparr>calls := calls s @ [(c, v)]\<rparr>) = Some s1"
        and f: "forEach n B a (Suc i) v s1 = Some s'"
        by (auto split: option.splits)
      have "evolves (s\<lparr>calls := calls s @ [(c, v)]\<rparr>) s1"
        using "2.IH"(2)[OF True Some e] .
      moreover have "evolves s1 s'"
        using "2.IH"(3)[OF True Some e f] .
      ultimately show ?thesis
        using evolves_trans evolves_log by blast
    qed
  qed
next
  case (3 n B s)
  then show ?case by (simp add: evolves_refl)
next
  case (4 n B e c ops s)
  then show ?case using evolves_trans[OF evolves_on] by fastforce
next
  case (5 n B e c ops s)
  then show ?case using evolves_trans[OF evolves_off] by fastforce
next
  case (6 n B k v ops s)
  let ?s0 = "s\<lparr>values_map := (values_map s)(k \<mapsto> v)\<rparr>"
  show ?case
  proof (cases "listeners s (k @ '':set'')")
    case None
    with "6.prems" have "exec n B ops ?s0 = Some s'" by simp
    from "6.IH"(2)[OF _ this] None have "evolves ?s0 s'" by simp
    then show ?thesis using evolves_trans evolves_values by blast
  next
    case (Some a)
    with "6.prems" obtain s1 where
      f: "forEach n B a 0 v ?s0 = Some s1" and e: "exec n B ops s1 = Some s'"
      by (auto split: option.splits)
    have "evolves ?s0 s1" using "6.IH"(1)[OF Some f] .
    moreover have "evolves s1 s'" using "6.IH"(2)[OF _ e] Some f by simp
    ultimately show ?thesis using evolves_trans evolves_values by blast
  qed
qed

lemma evolves_calls: "evolves s s' \<Longrightarrow> calls s' = calls s @ new_calls s s'"
  by (auto simp: evolves_def new_calls_def)

lemma new_calls_trans:
  assumes "evolves s s'" and "evolves s' s''"
  shows "new_calls s s'' = new_calls s s' @ new_calls s' s''"
proof -
  have "calls s'' = calls s @ new_calls s s' @ new_calls s' s''"
    using evolves_calls[OF assms(1)] evolves_calls[OF assms(2)] by simp
  then show ?thesis by (simp add: new_calls_def[of s s''])
qed

lemma new_calls_log: "new_calls s (s\<lparr>calls := calls s @ xs\<rparr>) = xs"
  by (simp add: new_calls_def)

lemma new_calls_values: "new_calls (s\<lparr>values_map := m\<rparr>) s' = new_calls s s'"
  by (simp add: new_calls_def)

lemma evolves_entry:
  assumes "evolves s s'" and "a < next_addr s" and "j < length (heap s a)"
    and "heap s' a ! j = Some c"
  shows "heap s a ! j = Some c"
  using assms unfolding evolves_def by (metis option.distinct(1))

lemma forEach_live:
  assumes "forEach n B a i v s = Some s'" and "a < next_addr s"
    and "i \<le> j" and "j < length (heap s' a)" and "heap s' a ! j = Some c"
  shows "(c, v) \<in> set (new_calls s s')"
  using assms
proof (induction n arbitrary: i s)
  case 0
  then show ?case by (auto split: if_splits)
next
  case (Suc n)
  have ev: "evolves s s'" using forEach_exec_evolves(1)[OF Suc.prems(1)] .
  show ?case
  proof (cases "i < length (heap s a)")
    case False
    with Suc.prems show ?thesis by auto
  next
    case True
    show ?thesis
    proof (cases "heap s a ! i")
      case None
      with True Suc.prems(1) have f: "forEach n B a (Suc i) v s = Some s'" by simp
      have "j \<noteq> i"
        using evolves_entry[OF ev Suc.prems(2) True] None Suc.prems(5) by auto
      with Suc.prems(3) have "Suc i \<le> j" by simp
      from Suc.IH[OF f Suc.prems(2) this Suc.prems(4,5)] show ?thesis .
    next
      case (Some c0)
      let ?s0 = "s\<lparr>calls := calls s @ [(c0, v)]\<rparr>"
      from Some True Suc.prems(1) obtain s1 where
        e: "exec n B (B c0 v) ?s0 = Some s1"
        and f: "forEach n B a (Suc i) v s1 = Some s'"
        by (auto split: option.splits)
      have ev0: "evolves s ?s0" by (rule evolves_log)
      have ev1: "evolves ?s0 s1" using forEach_exec_evolves(2)[OF e] .
      have ev2: "evolves s1 s'" using forEach_exec_evolves(1)[OF f] .
      have ev01: "evolves s s1" using evolves_trans[OF ev0 ev1] .
      have nc: "new_calls s s' = (c0, v) # new_calls ?s0 s1 @ new_calls s1 s'"
        using new_calls_trans[OF ev01 ev2] new_calls_trans[OF ev0 ev1]
        by (simp add: new_calls_log)
      show ?thesis
      proof (cases "j = i")
        case True
        then have "c = c0"
          using evolves_entry[OF ev Suc.prems(2) \<open>i < length (heap s a)\<close>] Some Suc.prems(5)
          by auto
        then show ?thesis using nc by simp
      next
        case False
        with Suc.prems(3) have le: "Suc i \<le> j" by simp
        have a1: "a < next_addr s1" using ev01 Suc.prems(2) by (simp add: evolves_def)
        from Suc.IH[OF f a1 le Suc.prems(4,5)] show ?thesis using nc by simp
      qed
    qed
  qed
qed

subsection \<open>The invariant of the listener mapping\<close>

lemma store_inv_create: "store_inv createDataStore"
  by (simp add: store_inv_def createDataStore_def)

lemma store_inv_on:
  assumes "store_inv s"
  shows "store_inv (on e c s)"
proof (cases "listeners s e")
  case None
  have lt: "a < next_addr s" if "listeners s e' = Some a" for e' a
    using assms that unfolding store_inv_def by blast
  show ?thesis
    unfolding store_inv_def
  proof (intro allI impI)
    fix e1 a1
    assume l: "listeners (on e c s) e1 = Some a1"
    show "members (heap (on e c s) a1) \<noteq> [] \<and> distinct (members (heap (on e c s) a1)) \<and>
        a1 < next_addr (on e c s) \<and> (\<forall>e'. listeners (on e c s) e' = Some a1 \<longrightarrow> e' = e1)"
    proof (cases "e1 = e")
      case True
      with l None have a1: "a1 = next_addr s" by (simp add: on_def)
      have "\<forall>e'. listeners (on e c s) e' = Some a1 \<longrightarrow> e' = e1"
        using None True a1 lt by (auto simp: on_def split: if_splits)
      then show ?thesis using None a1 by (simp add: on_def set_add_def)
    next
      case False
      with l None have l0: "listeners s e1 = Some a1" by (simp add: on_def)
      then have ne: "a1 \<noteq> next_addr s" using lt by blast
      have "\<forall>e'. listeners (on e c s) e' = Some a1 \<longrightarrow> e' = e1"
        using None ne l0 assms unfolding store_inv_def by (auto simp: on_def split: if_splits)
      moreover have "heap (on e c s) a1 = heap s a1" using None ne by (simp add: on_def)
      moreover have "a1 < next_addr (on e c s)" using None lt[OF l0] by (simp add: on_def)
      ultimately show ?thesis using assms l0 unfolding store_inv_def by metis
    qed
  qed
next
  case (Some a)
  have ls: "listeners (on e c s) = listeners s" and nx: "next_addr (on e c s) = next_addr s"
    and hp: "heap (on e c s) = (heap s)(a := set_add c (heap s a))"
    using Some by (simp_all add: on_def)
  have ma: "members (set_add c (heap s a)) \<noteq> []" "distinct (members (set_add c (heap s a)))"
    using assms Some unfolding store_inv_def by (auto simp: members_set_add)
  show ?thesis
    unfolding store_inv_def ls nx hp
    using assms ma unfolding store_inv_def by (auto simp: fun_upd_def)
qed

lemma store_inv_off:
  assumes "store_inv s"
  shows "store_inv (off e c s)"
proof (cases "listeners s e")
  case None
  then show ?thesis using assms by (simp add: off_def)
next
  case (Some a)
  have other: "a1 \<noteq> a" if "listeners s e1 = Some a1" "e1 \<noteq> e" for e1 a1
    using assms Some that unfolding store_inv_def by blast
  have keep: "distinct (members (set_delete c (heap s a)))"
    using assms Some unfolding store_inv_def by (simp add: members_set_delete distinct_removeAll)
  show ?thesis
  proof (cases "members (set_delete c (heap s a)) = []")
    case True
    then have o: "off e c s = s\<lparr>heap := (heap s)(a := set_delete c (heap s a)),
        listeners := (listeners s)(e := None)\<rparr>"
      using Some by (simp add: off_def Let_def set_size_def)
    show ?thesis
      unfolding o store_inv_def using assms other unfolding store_inv_def
      by (auto split: if_splits)
  next
    case False
    then have o: "off e c s = s\<lparr>heap := (heap s)(a := set_delete c (heap s a))\<rparr>"
      using Some by (simp add: off_def Let_def set_size_def)
    show ?thesis
      unfolding o store_inv_def using assms other keep False Some unfolding store_inv_def
      by (auto split: if_splits)
  qed
qed

lemma store_inv_log: "store_inv (s\<lparr>calls := xs\<rparr>) = store_inv s"
  by (simp add: store_inv_def)

lemma store_inv_values: "store_inv (s\<lparr>values_map := m\<rparr>) = store_inv s"
  by (simp add: store_inv_def)

lemma forEach_exec_inv:
  shows "forEach n B a i v s = Some s' \<Longrightarrow> store_inv s \<Longrightarrow> store_inv s'"
    and "exec n B ops s = Some s' \<Longrightarrow> store_inv s \<Longrightarrow> store_inv s'"
proof (induction n B a i v s and n B ops s arbitrary: s' and s' rule: forEach_exec.induct)
  case (1 B a i v s)
  then show ?case by (auto split: if_splits)
next
  case (2 n B a i v s)
  show ?case
  proof (cases "i < length (heap s a)")
    case False
    with "2.prems" show ?thesis by simp
  next
    case True
    show ?thesis
    proof (cases "heap s a ! i")
      case None
      with True "2.prems" have "forEach n B a (Suc i) v s = Some s'" by simp
      with "2.IH"(1)[OF True None] "2.prems"(2) show ?thesis by simp
    next
      case (Some c)
      with True "2.prems" obtain s1 where
        e: "exec n B (B c v) (s\<lparr>calls := calls s @ [(c, v)]\<rparr>) = Some s1"
        and f: "forEach n B a (Suc i) v s1 = Some s'"
        by (auto split: option.splits)
      have "store_inv s1"
        using "2.IH"(2)[OF True Some e] "2.prems"(2) by (simp add: store_inv_log)
      then show ?thesis
        using "2.IH"(3)[OF True Some e f] by simp
    qed
  qed
next
  case (3 n B s)
  then show ?case by simp
next
  case (4 n B e c ops s)
  then show ?case using store_inv_on by fastforce
next
  case (5 n B e c ops s)
  then show ?case using store_inv_off by fastforce
next
  case (6 n B k v ops s)
  let ?s0 = "s\<lparr>values_map := (values_map s)(k \<mapsto> v)\<rparr>"
  have i0: "store_inv ?s0" using "6.prems"(2) by (simp add: store_inv_values)
  show ?case
  proof (cases "listeners s (k @ '':set'')")
    case None
    with "6.prems" have "exec n B ops ?s0 = Some s'" by simp
    from "6.IH"(2)[OF _ this i0] None show ?thesis by simp
  next
    case (Some a)
    with "6.prems" obtain s1 where
      f: "forEach n B a 0 v ?s0 = Some s1" and e: "exec n B ops s1 = Some s'"
      by (auto split: option.splits)
    have "store_inv s1" using "6.IH"(1)[OF Some f i0] .
    then show ?thesis using "6.IH"(2)[OF _ e] Some f by simp
  qed
qed

subsection \<open>Walking through a Set object\<close>


subsection \<open>Callbacks that only register and unregister\<close>

lemma heap_on_cases:
  "heap (on e c s) a = heap s a \<or> heap (on e c s) a = set_add c (heap s a) \<or>
   heap (on e c s) a = set_add c []"
  by (cases "listeners s e") (simp_all add: on_def)


lemma listeners_on_other: "e' \<noteq> e \<Longrightarrow> listeners (on e' c s) e = listeners s e"
  by (cases "listeners s e'") (simp_all add: on_def)

lemma listeners_on_known: "listeners s e = Some a \<Longrightarrow> listeners (on e c s) e = Some a"
  by (simp add: on_def)

lemma absent_on:
  assumes "c \<noteq> d" and "Some d \<notin> set (heap s a)"
  shows "Some d \<notin> set (heap (on e c s) a)"
proof
  assume m: "Some d \<in> set (heap (on e c s) a)"
  from heap_on_cases[of e c s a] show False
  proof (elim disjE)
    assume "heap (on e c s) a = heap s a"
    with m assms show False by simp
  next
    assume "heap (on e c s) a = set_add c (heap s a)"
    with m set_add_subset[of d c "heap s a"] assms show False by auto
  next
    assume "heap (on e c s) a = set_add c []"
    with m set_add_subset[of d c "[]"] assms show False by auto
  qed
qed


lemma pending_on:
  assumes "c \<noteq> d" and "listeners s e = Some a \<or> Some d \<notin> set (heap s a)"
  shows "listeners (on e' c s) e = Some a \<or> Some d \<notin> set (heap (on e' c s) a)"
proof (cases "Some d \<in> set (heap s a)")
  case False
  then show ?thesis using absent_on[OF assms(1)] by blast
next
  case True
  with assms have l: "listeners s e = Some a" by simp
  show ?thesis
  proof (cases "e' = e")
    case True
    then show ?thesis using listeners_on_known[OF l] by simp
  next
    case False
    from listeners_on_other[OF False, of c s] l show ?thesis by simp
  qed
qed







lemma registered_inv:
  assumes "store_inv s"
  shows "distinct (registered s e)" and "listeners s e \<noteq> None \<Longrightarrow> registered s e \<noteq> []"
  using assms by (auto simp: store_inv_def registered_def split: option.splits)

lemma off_last:
  assumes "registered s e = [c]"
  shows "listeners (off e c s) e = None"
proof (cases "listeners s e")
  case None
  then show ?thesis by (simp add: off_def)
next
  case (Some a)
  with assms have "members (heap s a) = [c]" by (simp add: registered_def)
  then have "set_size (set_delete c (heap s a)) = 0"
    by (simp add: set_size_def members_set_delete)
  then show ?thesis using Some by (simp add: off_def Let_def)
qed

lemma on_unknown:
  assumes "listeners s e = None"
  shows "listeners (on e c s) e = Some (next_addr s)" and "registered (on e c s) e = [c]"
  using assms by (simp_all add: on_def registered_def set_add_def)

lemmas store_eval = set_key_def emit_def on_def off_def Let_def createDataStore_def set_add_def
  set_delete_def set_size_def new_calls_def registered_def get_def

subsection \<open>Callbacks that leave an event alone\<close>








subsection \<open>What a pass invokes\<close>





subsection \<open>A callback that is not registered again\<close>















subsection \<open>Passes in which no callback unregisters from the event\<close>








subsection \<open>Delivery\<close>




subsection \<open>Registration during a pass\<close>

text \<open>
  C1, the claim as it stands: a callback that an executing callback registers for
  \<open>"<k>:set"\<close> is not invoked within the same emission pass. It fails: with callback 0
  alone registered for \<open>''k:set''\<close>, and callback 0 registering callback 1 for the same
  event, \<open>set(''k'', 5)\<close> invokes callback 0 and then callback 1.
\<close>

theorem snapshot_counterexample:
  "registered one_listener ''k:set'' = [0] \<and>
   map_option calls (set_key 3 adder ''k'' 5 one_listener) = Some [(0, 5), (1, 5)]"
  by (simp add: store_eval one_listener_def adder_def numeral_nat)

text \<open>
  C1, as amended: \<open>emit\<close> iterates the live Set object and takes no snapshot. Whenever the
  pass started by \<open>set(k, v)\<close> ends, every callback that is then a member of the Set
  object the pass iterated has been invoked with \<open>v\<close> within that pass; in particular
  a callback that an executing callback has newly registered for \<open>"<k>:set"\<close>, unless
  it was unregistered again or the Set was emptied (and with it replaced) before the pass
  reached it. This holds whatever the callbacks do.
\<close>

theorem emit_iterates_live_set:
  assumes "set_key n B k v s = Some s'"
    and "listeners s (k @ '':set'') = Some a" and "a < next_addr s"
    and "Some c \<in> set (heap s' a)"
  shows "(c, v) \<in> set (new_calls s s')"
proof -
  let ?s0 = "s\<lparr>values_map := (values_map s)(k \<mapsto> v)\<rparr>"
  have f0: "forEach n B a 0 v ?s0 = Some s'"
    using assms(1,2) by (simp add: set_key_def emit_def)
  from assms(4) obtain j where "j < length (heap s' a)" "heap s' a ! j = Some c"
    by (auto simp: in_set_conv_nth)
  from forEach_live[OF f0 _ _ this] assms(3)
  have "(c, v) \<in> set (new_calls ?s0 s')" by simp
  then show ?thesis by (simp add: new_calls_values)
qed

text \<open>The amended C1 at the example above: callback 1, registered during the pass, is
  invoked within it.\<close>

theorem emit_iterates_live_set_witness:
  "\<exists>s'. set_key 3 adder ''k'' 5 one_listener = Some s' \<and>
     listeners one_listener ''k:set'' = Some 0 \<and> Some 1 \<notin> set (heap one_listener 0) \<and>
     heap s' 0 = [Some 0, Some 1] \<and> (1, 5) \<in> set (new_calls one_listener s')"
proof -
  obtain s' where k: "set_key 3 adder ''k'' 5 one_listener = Some s'"
    and h: "heap s' 0 = [Some 0, Some 1]"
    by (simp add: store_eval one_listener_def adder_def numeral_nat)
  have l: "listeners one_listener (''k'' @ '':set'') = Some 0"
    and a: "0 < next_addr one_listener"
    and n: "Some 1 \<notin> set (heap one_listener 0)"
    by (simp_all add: store_eval one_listener_def)
  have m: "Some 1 \<in> set (heap s' 0)" using h by simp
  from emit_iterates_live_set[OF k l a m] k l n h show ?thesis by simp
qed

subsection \<open>Removal during a pass\<close>




subsection \<open>Listener cleanup\<close>

text \<open>
  C8, the claim as it stands, says that \<open>on\<close> for an unknown event is a no-op. It is
  not: on the new store, where \<open>''e''\<close> is unknown, \<open>on(''e'', 0)\<close> creates the entry.
\<close>

theorem on_unknown_event_counterexample:
  "listeners (createDataStore :: int store) ''e'' = None \<and>
   registered (on ''e'' 0 (createDataStore :: int store)) ''e'' = [0] \<and>
   on ''e'' 0 (createDataStore :: int store) \<noteq> createDataStore"
proof -
  have "listeners (on ''e'' 0 (createDataStore :: int store)) \<noteq> listeners (createDataStore :: int store)"
    by (simp add: store_eval fun_eq_iff)
  then have "on ''e'' 0 (createDataStore :: int store) \<noteq> createDataStore" by metis
  then show ?thesis by (simp add: store_eval)
qed

text \<open>
  C8, as amended: after every sequence of \<open>on\<close>, \<open>off\<close> and \<open>set\<close> calls on a
  new store, whatever the callbacks do, no event name of the listener mapping is mapped to
  an empty callback set; \<open>off\<close> of the last remaining callback of an event removes the
  event name from the mapping; \<open>off\<close> for an unknown event changes nothing; and
  \<open>on\<close> for an unknown event creates its entry, with that callback as only member.
\<close>

theorem listeners_never_map_to_empty_set:
  assumes "exec n B ops createDataStore = Some s"
  shows "(\<forall>e. listeners s e \<noteq> None \<longrightarrow> registered s e \<noteq> []) \<and>
         (\<forall>e c. registered s e = [c] \<longrightarrow> listeners (off e c s) e = None) \<and>
         (\<forall>e c. listeners s e = None \<longrightarrow> off e c s = s) \<and>
         (\<forall>e c. listeners s e = None \<longrightarrow>
            listeners (on e c s) e \<noteq> None \<and> registered (on e c s) e = [c])"
proof -
  have "store_inv s"
    using forEach_exec_inv(2)[OF assms store_inv_create] .
  then have "\<forall>e. listeners s e \<noteq> None \<longrightarrow> registered s e \<noteq> []"
    using registered_inv(2) by blast
  moreover have "\<forall>e c. registered s e = [c] \<longrightarrow> listeners (off e c s) e = None"
    using off_last by blast
  moreover have "\<forall>e c. listeners s e = None \<longrightarrow> off e c s = s"
    by (simp add: off_def)
  moreover have "\<forall>e c. listeners s e = None \<longrightarrow>
      listeners (on e c s) e \<noteq> None \<and> registered (on e c s) e = [c]"
    using on_unknown by fastforce
  ultimately show ?thesis by blast
qed

text \<open>C8 at a history that registers, sets, and unregisters the only callback of an
  event.\<close>

theorem listeners_never_map_to_empty_set_witness:
  "\<exists>s. exec 2 observers history createDataStore = Some s \<and>
     listeners s ''k:set'' = Some 0 \<and> registered s ''k:set'' = [0, 1] \<and>
     listeners s ''other:set'' = Some 1 \<and> registered s ''other:set'' = [2] \<and>
     listeners (off ''other:set'' 2 s) ''other:set'' = None \<and>
     listeners s ''gone'' = None \<and> off ''gone'' 3 s = s \<and>
     listeners (on ''gone'' 3 s) ''gone'' \<noteq> None \<and> registered (on ''gone'' 3 s) ''gone'' = [3]"
proof -
  obtain s where x: "exec 2 observers history createDataStore = Some s"
    and l: "listeners s ''k:set'' = Some 0" "listeners s ''other:set'' = Some 1"
      "listeners s ''gone'' = None"
    and r: "registered s ''k:set'' = [0, 1]" "registered s ''other:set'' = [2]"
    by (simp add: store_eval history_def observers_def numeral_nat)
  from listeners_never_map_to_empty_set[OF x] l r x show ?thesis by simp
qed

section \<open>Properties of the rounding, of \<open>clampTime\<close> and of the clock\<close>

lemma STEP_val: "TIMELINE_STEP = 5764607523034235 / 288230376151711744"
  by code_simp

lemma MAXS_val: "fsub TIMELINE_MAX TIMELINE_STEP = 4458563631096791 / 2251799813685248"
  by code_simp

lemma step_99_val: "fmul 99 TIMELINE_STEP = 4458563631096791 / 2251799813685248"
  by code_simp

lemma step_100_val: "fmul 100 TIMELINE_STEP = 2"
  by code_simp

lemma round_ties_even_err: "\<bar>of_int (round_ties_even t) - t\<bar> \<le> 1 / 2"
proof -
  define f where "f = \<lfloor>t\<rfloor>"
  have lo: "of_int f \<le> t" and hi: "t < of_int f + 1"
    unfolding f_def by linarith+
  have "round_ties_even t = f \<and> t - of_int f \<le> 1 / 2 \<or>
        round_ties_even t = f + 1 \<and> 1 / 2 \<le> t - of_int f"
    unfolding round_ties_even_def Let_def f_def[symmetric] by auto
  then show ?thesis
    using lo hi by (auto simp: abs_le_iff)
qed

lemma round_ties_even_nonneg:
  assumes "0 \<le> t"
  shows "0 \<le> round_ties_even t"
proof -
  have "0 \<le> \<lfloor>t\<rfloor>" using assms by simp
  then show ?thesis
    unfolding round_ties_even_def Let_def by auto
qed

lemma two_power_of_int: "(of_int (2 ^ k) :: rat) = 2 ^ k"
  by simp

lemma powi_nonneg: "0 \<le> j \<Longrightarrow> (2::rat) powi j = 2 ^ nat j"
  by (simp add: power_int_def)

lemma powi_neg: "0 \<le> j \<Longrightarrow> (2::rat) powi (- j) = 1 / 2 ^ nat j"
  by (simp add: power_int_minus powi_nonneg divide_inverse)

lemma binade_lower:
  assumes "x \<noteq> 0"
  shows "2 powi binade x \<le> \<bar>x\<bar>"
proof (cases "1 \<le> \<bar>x\<bar>")
  case True
  define n where "n = \<lfloor>\<bar>x\<bar>\<rfloor>"
  have n1: "0 < n" using True unfolding n_def by linarith
  have b: "binade x = bitlen n - 1"
    using True by (simp add: binade_def n_def)
  have bp: "0 \<le> bitlen n - 1"
    using n1 bitlen_bounds[of n] by (smt (verit) bitlen_nonneg bitlen_eq_zero_iff)
  have "2 ^ nat (bitlen n - 1) \<le> n"
    using bitlen_bounds[OF n1] by simp
  then have "(of_int (2 ^ nat (bitlen n - 1)) :: rat) \<le> of_int n"
    by (simp only: of_int_le_iff)
  then have "(2::rat) ^ nat (bitlen n - 1) \<le> of_int n"
    by (simp only: two_power_of_int)
  also have "(of_int n :: rat) \<le> \<bar>x\<bar>"
    unfolding n_def by linarith
  finally have "(2::rat) ^ nat (bitlen n - 1) \<le> \<bar>x\<bar>" .
  moreover have "(2::rat) powi binade x = 2 ^ nat (bitlen n - 1)"
    unfolding b using bp by (simp only: power_int_def if_True)
  ultimately show ?thesis by simp
next
  case False
  define m where "m = \<lceil>1 / \<bar>x\<bar>\<rceil>"
  define j where "j = bitlen (m - 1)"
  have xp: "0 < \<bar>x\<bar>" using assms by simp
  have "1 < 1 / \<bar>x\<bar>" using False xp by simp
  then have m2: "2 \<le> m" unfolding m_def by linarith
  have b: "binade x = - j"
    using False by (simp add: binade_def m_def j_def)
  have jb: "m - 1 < 2 ^ nat j"
    using bitlen_bounds[of "m - 1"] m2 unfolding j_def by simp
  have j0: "0 \<le> j" unfolding j_def by (rule bitlen_nonneg)
  from jb have "m \<le> 2 ^ nat j" by simp
  then have "(of_int m :: rat) \<le> of_int (2 ^ nat j)"
    by (simp only: of_int_le_iff)
  then have "(of_int m :: rat) \<le> 2 ^ nat j"
    by (simp only: two_power_of_int)
  moreover have "1 / \<bar>x\<bar> \<le> of_int m" unfolding m_def by linarith
  ultimately have "1 / \<bar>x\<bar> \<le> 2 ^ nat j" by linarith
  then have "1 \<le> 2 ^ nat j * \<bar>x\<bar>"
    using xp by (simp add: pos_divide_le_eq)
  then have "1 / 2 ^ nat j \<le> \<bar>x\<bar>"
    by (simp add: pos_divide_le_eq mult.commute)
  moreover have "(2::rat) powi binade x = 1 / 2 ^ nat j"
    unfolding b using j0 by (rule powi_neg)
  ultimately show ?thesis by simp
qed

lemma binade_upper:
  assumes "x \<noteq> 0"
  shows "\<bar>x\<bar> < 2 powi (binade x + 1)"
proof (cases "1 \<le> \<bar>x\<bar>")
  case True
  define n where "n = \<lfloor>\<bar>x\<bar>\<rfloor>"
  have n1: "0 < n" using True unfolding n_def by linarith
  have b: "binade x + 1 = bitlen n"
    using True by (simp add: binade_def n_def)
  have "n < 2 ^ nat (bitlen n)"
    using bitlen_bounds[OF n1] by simp
  then have "n + 1 \<le> 2 ^ nat (bitlen n)" by simp
  then have "(of_int (n + 1) :: rat) \<le> of_int (2 ^ nat (bitlen n))"
    by (simp only: of_int_le_iff)
  then have "(of_int (n + 1) :: rat) \<le> 2 ^ nat (bitlen n)"
    by (simp only: two_power_of_int)
  moreover have "\<bar>x\<bar> < of_int (n + 1)"
    unfolding n_def by linarith
  ultimately have "\<bar>x\<bar> < 2 ^ nat (bitlen n)" by linarith
  moreover have "(2::rat) powi (binade x + 1) = 2 ^ nat (bitlen n)"
    unfolding b using bitlen_nonneg[of n] by (simp only: power_int_def if_True)
  ultimately show ?thesis by simp
next
  case False
  define m where "m = \<lceil>1 / \<bar>x\<bar>\<rceil>"
  define j where "j = bitlen (m - 1)"
  have xp: "0 < \<bar>x\<bar>" using assms by simp
  have "1 < 1 / \<bar>x\<bar>" using False xp by simp
  then have m2: "2 \<le> m" unfolding m_def by linarith
  have b: "binade x + 1 = - (j - 1)"
    using False by (simp add: binade_def m_def j_def)
  have jb: "2 ^ nat (j - 1) \<le> m - 1"
    using bitlen_bounds[of "m - 1"] m2 unfolding j_def by simp
  have j1: "0 \<le> j - 1"
    using m2 bitlen_eq_zero_iff[of "m - 1"] bitlen_nonneg[of "m - 1"] unfolding j_def by linarith
  from jb have "(of_int (2 ^ nat (j - 1)) :: rat) \<le> of_int (m - 1)"
    by (simp only: of_int_le_iff)
  then have "(2::rat) ^ nat (j - 1) \<le> of_int (m - 1)"
    by (simp only: two_power_of_int)
  moreover have "of_int (m - 1) < 1 / \<bar>x\<bar>" unfolding m_def by linarith
  ultimately have "2 ^ nat (j - 1) < 1 / \<bar>x\<bar>" by linarith
  then have "2 ^ nat (j - 1) * \<bar>x\<bar> < 1"
    using xp by (simp add: pos_less_divide_eq)
  then have "\<bar>x\<bar> < 1 / 2 ^ nat (j - 1)"
    by (simp add: pos_less_divide_eq mult.commute)
  moreover have "(2::rat) powi (binade x + 1) = 1 / 2 ^ nat (j - 1)"
    unfolding b using j1 by (rule powi_neg)
  ultimately show ?thesis by simp
qed

lemma fl_err_abs: "\<bar>fl x - x\<bar> \<le> 2 powi ulp_exp x / 2"
proof (cases "x = 0")
  case True
  then show ?thesis by (simp add: fl_def)
next
  case False
  define u :: rat where "u = 2 powi ulp_exp x"
  have up: "0 < u" unfolding u_def by simp
  define r where "r = round_ties_even (x / u)"
  have f: "fl x = of_int r * u"
    using False by (simp add: fl_def u_def r_def)
  have "\<bar>of_int r - x / u\<bar> \<le> 1 / 2"
    unfolding r_def by (rule round_ties_even_err)
  then have "\<bar>of_int r - x / u\<bar> * u \<le> 1 / 2 * u"
    using up by (simp only: mult_right_mono less_imp_le)
  moreover have "\<bar>of_int r - x / u\<bar> * u = \<bar>of_int r * u - x\<bar>"
  proof -
    have "\<bar>of_int r - x / u\<bar> * u = \<bar>(of_int r - x / u) * u\<bar>"
      using up by (simp add: abs_mult)
    also have "(of_int r - x / u) * u = of_int r * u - x"
      using up by (simp add: left_diff_distrib)
    finally show ?thesis .
  qed
  ultimately show ?thesis
    unfolding f u_def by simp
qed

lemma fl_nonneg:
  assumes "0 \<le> x"
  shows "0 \<le> fl x"
proof (cases "x = 0")
  case True
  then show ?thesis by (simp add: fl_def)
next
  case False
  have "0 \<le> x / 2 powi ulp_exp x" using assms by simp
  then have "0 \<le> round_ties_even (x / 2 powi ulp_exp x)"
    by (rule round_ties_even_nonneg)
  then show ?thesis using False by (simp add: fl_def)
qed

lemma binade_less:
  assumes "x \<noteq> 0" and "\<bar>x\<bar> < 2 powi e"
  shows "binade x < e"
proof (rule ccontr)
  assume "\<not> binade x < e"
  then have "e \<le> binade x" by simp
  then have "(2::rat) powi e \<le> 2 powi binade x"
    by (intro power_int_increasing) simp_all
  with binade_lower[OF assms(1)] assms(2) show False by linarith
qed

lemma binade_ge:
  assumes "2 powi e \<le> \<bar>x\<bar>"
  shows "e \<le> binade x"
proof (rule ccontr)
  assume "\<not> e \<le> binade x"
  then have "binade x + 1 \<le> e" by simp
  then have "(2::rat) powi (binade x + 1) \<le> 2 powi e"
    by (intro power_int_increasing) simp_all
  moreover have "x \<noteq> 0" using assms
    by (metis abs_zero not_le zero_less_numeral zero_less_power_int)
  ultimately show False using binade_upper[of x] assms by linarith
qed

lemma fl_err_rel:
  assumes "2 powi (- 1022) \<le> \<bar>x\<bar>"
  shows "\<bar>fl x - x\<bar> \<le> \<bar>x\<bar> / 2 ^ 53"
proof -
  have x0: "x \<noteq> 0" using assms
    by (metis abs_zero not_le zero_less_numeral zero_less_power_int)
  have b: "- 1022 \<le> binade x" using binade_ge[OF assms] .
  then have u: "ulp_exp x = binade x - 52" by (simp add: ulp_exp_def)
  have "(2::rat) powi (binade x - 52) = 2 powi binade x / 2 powi 52"
    by (rule power_int_diff) simp
  then have "(2::rat) powi ulp_exp x / 2 = 2 powi binade x / 2 ^ 53"
    unfolding u by simp
  also have "\<dots> \<le> \<bar>x\<bar> / 2 ^ 53"
    using binade_lower[OF x0] by (simp add: divide_right_mono)
  finally show ?thesis using fl_err_abs[of x] by linarith
qed

lemma fl_err_small:
  assumes "\<bar>x\<bar> < 128"
  shows "\<bar>fl x - x\<bar> \<le> 1 / 2 ^ 47"
proof (cases "x = 0")
  case True
  then show ?thesis by (simp add: fl_def)
next
  case False
  have "\<bar>x\<bar> < 2 powi 7" using assms by simp
  from binade_less[OF False this] have "ulp_exp x \<le> - 46"
    by (simp add: ulp_exp_def)
  then have "(2::rat) powi ulp_exp x \<le> 2 powi (- 46)"
    by (intro power_int_increasing) simp_all
  then have "(2::rat) powi ulp_exp x / 2 \<le> 2 powi (- 46) / 2" by simp
  also have "(2::rat) powi (- 46) / 2 = 1 / 2 ^ 47"
    by simp
  finally show ?thesis using fl_err_abs[of x] by linarith
qed

lemma STEP_pos: "0 < TIMELINE_STEP" and STEP_ge: "1 / 64 \<le> TIMELINE_STEP"
  and STEP_le: "TIMELINE_STEP \<le> 1 / 32"
  unfolding STEP_val by simp_all

lemma MAXS_bounds: "0 < fsub TIMELINE_MAX TIMELINE_STEP" "fsub TIMELINE_MAX TIMELINE_STEP < 2"
  unfolding MAXS_val by simp_all

lemma clamp_range: "lo \<le> hi \<Longrightarrow> lo \<le> clamp v lo hi \<and> clamp v lo hi \<le> hi"
  by (simp add: clamp_def)

lemma clamp_id: "lo \<le> v \<Longrightarrow> v \<le> hi \<Longrightarrow> clamp v lo hi = v"
  by (auto simp: clamp_def)

lemma clamp_closer:
  assumes "lo \<le> x" and "x \<le> hi"
  shows "\<bar>clamp v lo hi - x\<bar> \<le> \<bar>v - x\<bar>"
  using assms by (auto simp: clamp_def abs_le_iff)

lemma clampTime_snap:
  "clampTime v =
     clamp (fmul (of_int (snap_index v)) TIMELINE_STEP) TIMELINE_MIN (fsub TIMELINE_MAX TIMELINE_STEP)"
  by (simp add: clampTime_def snap_index_def math_round_def Let_def)

lemma quotient_small:
  assumes "0 \<le> x" and "x \<le> 2"
  shows "0 \<le> x / TIMELINE_STEP" and "x / TIMELINE_STEP < 100"
proof -
  show "0 \<le> x / TIMELINE_STEP" using assms STEP_pos by simp
  have "x / TIMELINE_STEP \<le> 2 / TIMELINE_STEP"
    using assms STEP_pos by (simp add: divide_right_mono)
  also have "2 / TIMELINE_STEP < 100" unfolding STEP_val by simp
  finally show "x / TIMELINE_STEP < 100" .
qed

lemma snap_index_range: "0 \<le> snap_index v" "snap_index v \<le> 100"
proof -
  define x where "x = clamp (case v of Num x \<Rightarrow> x | _ \<Rightarrow> TIMELINE_MIN) TIMELINE_MIN TIMELINE_MAX"
  have x: "0 \<le> x" "x \<le> 2"
    using clamp_range[of TIMELINE_MIN TIMELINE_MAX] unfolding x_def TIMELINE_MIN_def TIMELINE_MAX_def
    by simp_all
  define y where "y = x / TIMELINE_STEP"
  have y: "0 \<le> y" "y < 100" unfolding y_def using quotient_small[OF x] by simp_all
  have k: "snap_index v = \<lfloor>fl y + 1 / 2\<rfloor>"
    by (simp add: snap_index_def x_def y_def fdiv_def)
  have "0 \<le> fl y" using y(1) by (rule fl_nonneg)
  then show "0 \<le> snap_index v" unfolding k by simp
  have "\<bar>fl y - y\<bar> \<le> 1 / 2 ^ 47"
    using y by (intro fl_err_small) simp
  moreover have "(1::rat) / 2 ^ 47 \<le> 1 / 4" by simp
  ultimately have "fl y + 1 / 2 < 101" using y(2) by linarith
  then have "\<lfloor>fl y + 1 / 2\<rfloor> < 101" by (simp add: floor_less_iff)
  then show "snap_index v \<le> 100" unfolding k by simp
qed

lemma fmul_zero: "fmul 0 x = 0"
  by (simp add: fmul_def fl_def)

lemma clampTime_range:
  "TIMELINE_MIN \<le> clampTime v" "clampTime v \<le> fsub TIMELINE_MAX TIMELINE_STEP"
  using clamp_range[of TIMELINE_MIN "fsub TIMELINE_MAX TIMELINE_STEP"] MAXS_bounds(1)
  unfolding clampTime_snap TIMELINE_MIN_def by simp_all

lemma clampTime_multiple:
  "\<exists>k. 0 \<le> k \<and> k \<le> 99 \<and> clampTime v = fmul (of_int k) TIMELINE_STEP"
proof -
  define k where "k = snap_index v"
  define s where "s = fmul (of_int k) TIMELINE_STEP"
  have c: "clampTime v = clamp s TIMELINE_MIN (fsub TIMELINE_MAX TIMELINE_STEP)"
    unfolding s_def k_def by (rule clampTime_snap)
  have kr: "0 \<le> k" "k \<le> 100" unfolding k_def by (rule snap_index_range)+
  show ?thesis
  proof (cases "fsub TIMELINE_MAX TIMELINE_STEP \<le> s")
    case True
    then have "clampTime v = fmul (of_int 99) TIMELINE_STEP"
      unfolding c by (simp add: clamp_def MAXS_val step_99_val)
    then show ?thesis by (intro exI[of _ 99]) simp
  next
    case False
    note big = this
    show ?thesis
    proof (cases "s \<le> TIMELINE_MIN")
      case True
      then have "clampTime v = fmul (of_int 0) TIMELINE_STEP"
        unfolding c using big by (simp add: clamp_def fmul_zero TIMELINE_MIN_def)
      then show ?thesis by (intro exI[of _ 0]) simp
    next
      case False
      then have r: "clampTime v = s" unfolding c using big by (simp add: clamp_def)
      have "k \<noteq> 100"
      proof
        assume "k = 100"
        then have "s = 2" unfolding s_def using step_100_val by simp
        with big MAXS_bounds(2) show False by simp
      qed
      with kr have "k \<le> 99" by simp
      with kr(1) r show ?thesis unfolding s_def by blast
    qed
  qed
qed

lemma normal_range:
  assumes "1 / 64 \<le> \<bar>x :: rat\<bar>"
  shows "2 powi (- 1022) \<le> \<bar>x\<bar>"
proof -
  have "(2::rat) powi (- 1022) \<le> 2 powi (- 6)"
    by (intro power_int_increasing) simp_all
  also have "(2::rat) powi (- 6) = 1 / 64" by simp
  finally show ?thesis using assms by linarith
qed

lemma step_multiple_err:
  assumes "1 \<le> k"
  shows "\<bar>fmul (of_int k) TIMELINE_STEP - of_int k * TIMELINE_STEP\<bar>
    \<le> of_int k * TIMELINE_STEP / 2 ^ 53"
proof -
  have k1: "(1::rat) \<le> of_int k" using assms by simp
  have "1 * TIMELINE_STEP \<le> of_int k * TIMELINE_STEP"
    using k1 STEP_pos by (intro mult_right_mono) simp_all
  then have ge: "1 / 64 \<le> of_int k * TIMELINE_STEP" using STEP_ge by linarith
  then have a: "\<bar>of_int k * TIMELINE_STEP\<bar> = of_int k * TIMELINE_STEP" by linarith
  from fl_err_rel[OF normal_range, of "of_int k * TIMELINE_STEP"] ge a
  show ?thesis by (simp add: fmul_def)
qed

lemma step_multiple_quotient:
  assumes "1 \<le> k"
  shows "\<bar>fmul (of_int k) TIMELINE_STEP / TIMELINE_STEP - of_int k\<bar> \<le> of_int k / 2 ^ 53"
proof -
  define c where "c = TIMELINE_STEP"
  define r where "r = fmul (of_int k) TIMELINE_STEP"
  have cp: "0 < c" unfolding c_def by (rule STEP_pos)
  have e: "\<bar>r - of_int k * c\<bar> \<le> of_int k * c / 2 ^ 53"
    unfolding r_def c_def by (rule step_multiple_err[OF assms])
  have "r / c - of_int k = (r - of_int k * c) / c"
    using cp by (simp add: diff_divide_distrib)
  then have "\<bar>r / c - of_int k\<bar> = \<bar>r - of_int k * c\<bar> / c"
    using cp by (simp add: abs_divide)
  also have "\<dots> \<le> (of_int k * c / 2 ^ 53) / c"
    using e cp by (intro divide_right_mono) simp_all
  also have "\<dots> = of_int k / 2 ^ 53" using cp by simp
  finally show ?thesis unfolding r_def c_def .
qed

lemma snap_index_fixed:
  assumes "1 \<le> k" and "k \<le> 99"
    and "fmul (of_int k) TIMELINE_STEP \<le> fsub TIMELINE_MAX TIMELINE_STEP"
  shows "snap_index (Num (fmul (of_int k) TIMELINE_STEP)) = k"
proof -
  define r where "r = fmul (of_int k) TIMELINE_STEP"
  define y where "y = r / TIMELINE_STEP"
  have kk: "(1::rat) \<le> of_int k" "(of_int k :: rat) \<le> 99" using assms by simp_all
  have q: "\<bar>y - of_int k\<bar> \<le> of_int k / 2 ^ 53"
    unfolding y_def r_def by (rule step_multiple_quotient[OF assms(1)])
  have small: "(of_int k :: rat) / 2 ^ 53 \<le> 99 / 2 ^ 53"
    using kk by (intro divide_right_mono) simp_all
  have tiny: "(99::rat) / 2 ^ 53 \<le> 1 / 2" by simp
  have y1: "1 / 2 \<le> y" "y \<le> 100" using q small kk tiny by linarith+
  have yp: "0 < y" using y1 by linarith
  have rp: "0 < r" using yp STEP_pos unfolding y_def by (simp add: zero_less_divide_iff)
  have r2: "r < 2" using assms(3) MAXS_bounds(2) unfolding r_def by linarith
  have cl: "clamp r TIMELINE_MIN TIMELINE_MAX = r"
    using rp r2 by (simp add: clamp_def TIMELINE_MIN_def TIMELINE_MAX_def)
  have "2 powi (- 1022) \<le> \<bar>y\<bar>"
    using y1 by (intro normal_range) simp
  from fl_err_rel[OF this] yp have "\<bar>fl y - y\<bar> \<le> y / 2 ^ 53" by simp
  moreover have "y / 2 ^ 53 \<le> 100 / 2 ^ 53"
    using y1 by (intro divide_right_mono) simp_all
  ultimately have f: "\<bar>fl y - y\<bar> \<le> 100 / 2 ^ 53" by linarith
  have t: "(100::rat) / 2 ^ 53 + 99 / 2 ^ 53 < 1 / 2" by simp
  have "of_int k \<le> fl y + 1 / 2" "fl y + 1 / 2 < of_int k + 1"
    using f q small t by linarith+
  then have "\<lfloor>fl y + 1 / 2\<rfloor> = k" by (intro floor_unique) simp_all
  then show ?thesis
    unfolding r_def[symmetric] by (simp add: snap_index_def cl fdiv_def y_def)
qed

lemma clampTime_zero: "clampTime (Num 0) = 0"
proof -
  have "\<lfloor>(1::rat) / 2\<rfloor> = 0" by (intro floor_unique) simp_all
  then have "snap_index (Num 0) = 0"
    by (simp add: snap_index_def clamp_def TIMELINE_MIN_def TIMELINE_MAX_def fdiv_def fl_def)
  then show ?thesis
    using MAXS_bounds(1) by (simp add: clampTime_snap fmul_zero clamp_def TIMELINE_MIN_def)
qed

lemma clampTime_fixed_point: "clampTime (Num (clampTime v)) = clampTime v"
proof -
  obtain k where k: "0 \<le> k" "k \<le> 99" and c: "clampTime v = fmul (of_int k) TIMELINE_STEP"
    using clampTime_multiple by blast
  show ?thesis
  proof (cases "k = 0")
    case True
    then show ?thesis using c by (simp add: fmul_zero clampTime_zero)
  next
    case False
    with k have k1: "1 \<le> k" by simp
    have le: "fmul (of_int k) TIMELINE_STEP \<le> fsub TIMELINE_MAX TIMELINE_STEP"
      using clampTime_range(2)[of v] c by simp
    have ge: "TIMELINE_MIN \<le> fmul (of_int k) TIMELINE_STEP"
      using clampTime_range(1)[of v] c by simp
    have "clampTime (Num (fmul (of_int k) TIMELINE_STEP)) = fmul (of_int k) TIMELINE_STEP"
      unfolding clampTime_snap[of "Num (fmul (of_int k) TIMELINE_STEP)"]
        snap_index_fixed[OF k1 k(2) le]
      using ge le by (rule clamp_id)
    then show ?thesis using c by simp
  qed
qed

lemma clampTime_tolerance:
  "\<exists>k. 0 \<le> k \<and> k \<le> 99 \<and> clampTime v = fmul (of_int k) TIMELINE_STEP \<and>
     \<bar>(clampTime v - TIMELINE_MIN) / TIMELINE_STEP - of_int k\<bar> \<le> 99 / 2 ^ 53"
proof -
  obtain k where k: "0 \<le> k" "k \<le> 99" and c: "clampTime v = fmul (of_int k) TIMELINE_STEP"
    using clampTime_multiple by blast
  have "\<bar>fmul (of_int k) TIMELINE_STEP / TIMELINE_STEP - of_int k\<bar> \<le> 99 / 2 ^ 53"
  proof (cases "k = 0")
    case True
    then show ?thesis by (simp add: fmul_zero)
  next
    case False
    with k have k1: "1 \<le> k" by simp
    have "(of_int k :: rat) / 2 ^ 53 \<le> 99 / 2 ^ 53"
      using k by (intro divide_right_mono) simp_all
    with step_multiple_quotient[OF k1] show ?thesis by linarith
  qed
  with k c show ?thesis by (intro exI[of _ k]) (simp add: TIMELINE_MIN_def)
qed

lemma clampTime_nearest:
  assumes "TIMELINE_MIN \<le> x" and "x \<le> fsub TIMELINE_MAX TIMELINE_STEP"
  shows "\<bar>clampTime (Num x) - x\<bar> \<le> TIMELINE_STEP / 2 + 1 / 2 ^ 46"
proof -
  define c where "c = TIMELINE_STEP"
  have cp: "0 < c" "c \<le> 1 / 32" unfolding c_def using STEP_pos STEP_le by simp_all
  have x: "0 \<le> x" "x \<le> 2"
    using assms MAXS_bounds(2) by (simp_all add: TIMELINE_MIN_def)
  define y where "y = x / c"
  have y: "0 \<le> y" "y < 100" unfolding y_def c_def using quotient_small[OF x] by simp_all
  define k where "k = snap_index (Num x)"
  have cl: "clamp x TIMELINE_MIN TIMELINE_MAX = x"
    using x by (auto simp: clamp_def TIMELINE_MIN_def TIMELINE_MAX_def)
  have kd: "k = \<lfloor>fl y + 1 / 2\<rfloor>"
    by (simp add: k_def snap_index_def cl fdiv_def y_def c_def)
  have kr: "0 \<le> k" "k \<le> 100" unfolding k_def by (rule snap_index_range)+
  have e1: "\<bar>fl y - y\<bar> \<le> 1 / 2 ^ 47" using y by (intro fl_err_small) simp
  have "of_int k \<le> fl y + 1 / 2" "fl y + 1 / 2 < of_int k + 1"
    unfolding kd by linarith+
  then have e2: "\<bar>of_int k - fl y\<bar> \<le> 1 / 2" by linarith
  have e3: "\<bar>of_int k - y\<bar> \<le> 1 / 2 + 1 / 2 ^ 47" using e1 e2 by linarith
  have "of_int k * c - x = (of_int k - y) * c"
    using cp unfolding y_def by (simp add: left_diff_distrib)
  then have "\<bar>of_int k * c - x\<bar> = \<bar>of_int k - y\<bar> * c"
    using cp by (simp add: abs_mult)
  also have "\<dots> \<le> (1 / 2 + 1 / 2 ^ 47) * c"
    using e3 cp by (intro mult_right_mono) simp_all
  finally have e4: "\<bar>of_int k * c - x\<bar> \<le> c / 2 + c / 2 ^ 47"
    by (simp add: distrib_right)
  have "of_int k * c \<le> 100 * c"
    using kr cp by (intro mult_right_mono) simp_all
  moreover have "0 \<le> of_int k * c" using kr cp by simp
  ultimately have "\<bar>of_int k * c\<bar> < 128" using cp by linarith
  from fl_err_small[OF this] have e5: "\<bar>fmul (of_int k) c - of_int k * c\<bar> \<le> 1 / 2 ^ 47"
    by (simp add: fmul_def)
  have "c / 2 ^ 47 \<le> 1 / 2 ^ 47" using cp by (intro divide_right_mono) simp_all
  with e4 e5 have e6: "\<bar>fmul (of_int k) c - x\<bar> \<le> c / 2 + 1 / 2 ^ 47 + 1 / 2 ^ 47" by linarith
  have "\<bar>clampTime (Num x) - x\<bar> \<le> \<bar>fmul (of_int k) c - x\<bar>"
    unfolding clampTime_snap k_def c_def using assms by (rule clamp_closer)
  with e6 show ?thesis unfolding c_def by simp
qed

lemma clampTime_MAX: "clampTime (Num TIMELINE_MAX) = fsub TIMELINE_MAX TIMELINE_STEP"
  by code_simp

lemma data_set_uTime_simps:
  "writes (data_set_uTime v s) = writes s @ [(''timeline.uTime'', v)]"
  "currentTimelineValue (data_set_uTime v s) = clampTime (Num v)"
  "autoplayAccumulator (data_set_uTime v s) = autoplayAccumulator s"
  "isDragging (data_set_uTime v s) = isDragging s"
  "isPaused (data_set_uTime v s) = isPaused s"
  by (simp_all add: data_set_uTime_def timelineHandler_def applyTimelineValue_def
      updatePlaybackState_def Let_def)

lemma onUpdate_idle:
  assumes "isDragging s \<or> isPaused s"
  shows "onUpdate dt s = s\<lparr>autoplayAccumulator := 0\<rparr>"
  using assms by (simp add: onUpdate_def)

lemma onUpdate_below:
  assumes "\<not> isDragging s" and "\<not> isPaused s"
    and "fadd (autoplayAccumulator s) (fmul dt (1 / 2)) < AUTOPLAY_INTERVAL"
  shows "onUpdate dt s = s\<lparr>autoplayAccumulator := fadd (autoplayAccumulator s) (fmul dt (1 / 2))\<rparr>"
  using assms by (simp add: onUpdate_def Let_def)

lemma onUpdate_fires:
  assumes "\<not> isDragging s" and "\<not> isPaused s"
    and "AUTOPLAY_INTERVAL \<le> fadd (autoplayAccumulator s) (fmul dt (1 / 2))"
  shows "onUpdate dt s =
    data_set_uTime
      (if fsub TIMELINE_MAX TIMELINE_STEP < fadd (currentTimelineValue s) TIMELINE_STEP
       then TIMELINE_MIN else fadd (currentTimelineValue s) TIMELINE_STEP)
      (s\<lparr>autoplayAccumulator :=
           fsub (fadd (autoplayAccumulator s) (fmul dt (1 / 2))) AUTOPLAY_INTERVAL\<rparr>)"
  using assms by (simp add: onUpdate_def Let_def)

lemma run_ticks_append: "run_ticks (xs @ ys) s = run_ticks ys (run_ticks xs s)"
  by (induction xs arbitrary: s) simp_all

lemma accumulated_append: "accumulated a (xs @ ys) = accumulated (accumulated a xs) ys"
  by (induction xs arbitrary: a) simp_all

lemma run_ticks_idle:
  assumes "isDragging s \<or> isPaused s"
  shows "writes (run_ticks dts s) = writes s \<and>
    currentTimelineValue (run_ticks dts s) = currentTimelineValue s"
  using assms
proof (induction dts arbitrary: s)
  case Nil
  then show ?case by simp
next
  case (Cons dt dts)
  have "isDragging (onUpdate dt s) \<or> isPaused (onUpdate dt s)"
    using Cons.prems by (simp add: onUpdate_idle)
  from Cons.IH[OF this] Cons.prems show ?case by (simp add: onUpdate_idle)
qed

lemma run_ticks_below:
  assumes "\<not> isDragging s" and "\<not> isPaused s"
    and "\<forall>n. 1 \<le> n \<and> n \<le> length dts \<longrightarrow>
           accumulated (autoplayAccumulator s) (take n dts) < AUTOPLAY_INTERVAL"
  shows "run_ticks dts s = s\<lparr>autoplayAccumulator := accumulated (autoplayAccumulator s) dts\<rparr>"
  using assms
proof (induction dts arbitrary: s)
  case Nil
  then show ?case by simp
next
  case (Cons dt dts)
  let ?a = "fadd (autoplayAccumulator s) (fmul dt (1 / 2))"
  let ?s1 = "s\<lparr>autoplayAccumulator := ?a\<rparr>"
  have lt: "?a < AUTOPLAY_INTERVAL"
    using Cons.prems(3)[rule_format, of 1] by simp
  have step: "onUpdate dt s = ?s1"
    using onUpdate_below[OF Cons.prems(1,2) lt] .
  have "\<forall>n. 1 \<le> n \<and> n \<le> length dts \<longrightarrow>
      accumulated (autoplayAccumulator ?s1) (take n dts) < AUTOPLAY_INTERVAL"
  proof (intro allI impI)
    fix n assume n: "1 \<le> n \<and> n \<le> length dts"
    then show "accumulated (autoplayAccumulator ?s1) (take n dts) < AUTOPLAY_INTERVAL"
      using Cons.prems(3)[rule_format, of "Suc n"] by simp
  qed
  from Cons.IH[of ?s1, OF _ _ this] Cons.prems(1,2) step show ?case by simp
qed

lemma MIN_plus_STEP: "fadd TIMELINE_MIN TIMELINE_STEP = TIMELINE_STEP"
  by code_simp

lemma MAXS_plus_STEP: "fadd (fsub TIMELINE_MAX TIMELINE_STEP) TIMELINE_STEP = 2"
  unfolding MAXS_val STEP_val by code_simp

lemma half_second: "fadd 0 (fmul 1 (1 / 2)) = 1 / 2"
  by code_simp

lemma two_steps: "fmul 2 TIMELINE_STEP = 5764607523034235 / 144115188075855872"
  unfolding STEP_val by code_simp

lemma clampTime_STEP: "clampTime (Num TIMELINE_STEP) = TIMELINE_STEP"
  unfolding STEP_val by code_simp

lemma MAXS_gt_1: "1 < fsub TIMELINE_MAX TIMELINE_STEP"
  unfolding MAXS_val by simp

lemma STEP_less_MAXS: "TIMELINE_STEP < fsub TIMELINE_MAX TIMELINE_STEP"
  using STEP_le MAXS_gt_1 by linarith

lemma clamp_clamp: "lo \<le> hi \<Longrightarrow> clamp (clamp x lo hi) lo hi = clamp x lo hi"
  by (simp add: clamp_def)

lemma clampTime_clamped:
  "clampTime (Num x) = clampTime (Num (clamp x TIMELINE_MIN TIMELINE_MAX))"
  by (simp add: clampTime_def clamp_clamp TIMELINE_MIN_def TIMELINE_MAX_def)

lemma clampTime_not_finite:
  "clampTime PosInf = TIMELINE_MIN" "clampTime NegInf = TIMELINE_MIN" "clampTime NaN = TIMELINE_MIN"
  using clampTime_zero by (simp_all add: clampTime_def TIMELINE_MIN_def)

lemma INTERVAL_le_half: "AUTOPLAY_INTERVAL \<le> 1 / 2"
  unfolding AUTOPLAY_INTERVAL_def using STEP_le by linarith

subsection \<open>Clamping and snapping\<close>

text \<open>
  C3, the claim as it stands, says that \<open>(clampTime(x) - MIN) / STEP\<close> is always an
  integer. In doubles it is not: for \<open>x = 0.14\<close> the result is \<open>0.14\<close> itself, and
  the quotient, as JavaScript evaluates it, is \<open>7.000000000000001\<close>, that is
  \<open>7 + 1 / 2 ^ 50\<close>; the exact quotient of the two doubles,
  \<open>7 + 3 / 5764607523034235\<close>, is no integer either.
\<close>

theorem snap_quotient_counterexample:
  "clampTime (Num (fl (14 / 100))) = fl (14 / 100) \<and>
   fdiv (fsub (clampTime (Num (fl (14 / 100)))) TIMELINE_MIN) TIMELINE_STEP = 7 + 1 / 2 ^ 50 \<and>
   (clampTime (Num (fl (14 / 100))) - TIMELINE_MIN) / TIMELINE_STEP
     = 7 + 3 / 5764607523034235"
proof -
  have x: "fl (14 / 100) = 1261007895663739 / 9007199254740992" by code_simp
  have c: "clampTime (Num (1261007895663739 / 9007199254740992)) = 1261007895663739 / 9007199254740992"
    by code_simp
  have q: "fdiv (fsub (1261007895663739 / 9007199254740992) 0) (5764607523034235 / 288230376151711744)
      = 7881299347898369 / 1125899906842624"
    by code_simp
  show ?thesis
    unfolding x c by (simp add: q STEP_val TIMELINE_MIN_def)
qed

text \<open>
  C3, as amended. For every input, \<open>clampTime\<close> substitutes \<open>MIN\<close> for a value that
  is not finite, treats a finite value as if it had been clamped to \<open>[MIN, MAX]\<close>, and
  returns a value in \<open>[MIN, MAX - STEP]\<close>; the result is the double \<open>k * STEP\<close> for an
  integer \<open>0 \<le> k \<le> 99\<close>, so that \<open>(clampTime(x) - MIN) / STEP\<close> is an integer
  within floating tolerance (it differs from \<open>k\<close> by at most \<open>99 / 2 ^ 53\<close>), not
  always exactly; an input in \<open>[MIN, MAX - STEP]\<close> moves by at most half a step (plus
  rounding, \<open>1 / 2 ^ 46\<close>), which is the snap to the nearest multiple; and
  \<open>clampTime(MAX) = MAX - STEP\<close>.
\<close>

theorem clampTime_clamps_and_snaps:
  "clampTime PosInf = TIMELINE_MIN \<and> clampTime NegInf = TIMELINE_MIN \<and>
   clampTime NaN = TIMELINE_MIN \<and>
   clampTime (Num x) = clampTime (Num (clamp x TIMELINE_MIN TIMELINE_MAX)) \<and>
   TIMELINE_MIN \<le> clampTime v \<and> clampTime v \<le> fsub TIMELINE_MAX TIMELINE_STEP \<and>
   (\<exists>k. 0 \<le> k \<and> k \<le> 99 \<and> clampTime v = fmul (of_int k) TIMELINE_STEP \<and>
      \<bar>(clampTime v - TIMELINE_MIN) / TIMELINE_STEP - of_int k\<bar> \<le> 99 / 2 ^ 53) \<and>
   (TIMELINE_MIN \<le> x \<and> x \<le> fsub TIMELINE_MAX TIMELINE_STEP \<longrightarrow>
      \<bar>clampTime (Num x) - x\<bar> \<le> TIMELINE_STEP / 2 + 1 / 2 ^ 46) \<and>
   clampTime (Num TIMELINE_MAX) = fsub TIMELINE_MAX TIMELINE_STEP"
  using clampTime_not_finite clampTime_clamped[of x] clampTime_range[of v]
    clampTime_tolerance[of v] clampTime_nearest[of x] clampTime_MAX
  by blast

text \<open>C3 at \<open>x = 0.03\<close>, halfway between two steps and snapped up to \<open>0.04\<close>,
  and at \<open>1.99\<close>, snapped to \<open>2\<close> and clamped again to \<open>MAX - STEP\<close>.\<close>

theorem clampTime_clamps_and_snaps_witness:
  "TIMELINE_MIN \<le> fl (3 / 100) \<and> fl (3 / 100) \<le> fsub TIMELINE_MAX TIMELINE_STEP \<and>
   \<bar>clampTime (Num (fl (3 / 100))) - fl (3 / 100)\<bar> \<le> TIMELINE_STEP / 2 + 1 / 2 ^ 46 \<and>
   clampTime (Num (fl (3 / 100))) = fmul 2 TIMELINE_STEP \<and>
   clampTime (Num (fl (199 / 100))) = fsub TIMELINE_MAX TIMELINE_STEP"
proof -
  have x: "fl (3 / 100) = 1080863910568919 / 36028797018963968" by code_simp
  have h: "TIMELINE_MIN \<le> fl (3 / 100) \<and> fl (3 / 100) \<le> fsub TIMELINE_MAX TIMELINE_STEP"
    unfolding x MAXS_val TIMELINE_MIN_def by simp
  have c: "clampTime (Num (fl (3 / 100))) = fmul 2 TIMELINE_STEP"
    unfolding x two_steps by code_simp
  have y: "fl (199 / 100) = 8962163258467287 / 4503599627370496" by code_simp
  have d: "clampTime (Num (fl (199 / 100))) = fsub TIMELINE_MAX TIMELINE_STEP"
    unfolding y MAXS_val by code_simp
  from clampTime_clamps_and_snaps[of "fl (3 / 100)" "Num (fl (199 / 100))"] h c d
  show ?thesis by blast
qed

text \<open>
  C7: \<open>clampTime\<close> is idempotent. For every input \<open>v\<close>, finite or not,
  \<open>clampTime(clampTime(v)) = clampTime(v)\<close>, in double arithmetic.
\<close>

theorem clampTime_idempotent: "clampTime (Num (clampTime v)) = clampTime v"
  by (rule clampTime_fixed_point)

subsection \<open>The autoplay clock\<close>

text \<open>
  C2, the claim as it stands: a tick that brings the accumulator to at least \<open>k * STEP\<close>
  with \<open>k \<ge> 2\<close> performs \<open>k\<close> steps. It fails: playing, not dragging, at
  \<open>MIN\<close> with an empty accumulator, a tick of one second brings the accumulator to
  \<open>0.5\<close>, which is at least \<open>2 * STEP\<close>, and the tick makes one write.
\<close>

theorem drain_loop_counterexample:
  "\<not> isDragging (playing_at TIMELINE_MIN) \<and> \<not> isPaused (playing_at TIMELINE_MIN) \<and>
   fmul 2 TIMELINE_STEP \<le> fadd (autoplayAccumulator (playing_at TIMELINE_MIN)) (fmul 1 (1 / 2)) \<and>
   writes (onUpdate 1 (playing_at TIMELINE_MIN)) = [(''timeline.uTime'', TIMELINE_STEP)]"
proof -
  let ?s = "playing_at TIMELINE_MIN"
  have f: "\<not> isDragging ?s" "\<not> isPaused ?s" and a: "autoplayAccumulator ?s = 0"
    and c: "currentTimelineValue ?s = TIMELINE_MIN" and w: "writes ?s = []"
    by (simp_all add: playing_at_def)
  have big: "fmul 2 TIMELINE_STEP \<le> fadd (autoplayAccumulator ?s) (fmul 1 (1 / 2))"
    unfolding a half_second two_steps by simp
  have "AUTOPLAY_INTERVAL \<le> fadd (autoplayAccumulator ?s) (fmul 1 (1 / 2))"
    unfolding a half_second AUTOPLAY_INTERVAL_def STEP_val by simp
  from onUpdate_fires[OF f this]
  have "writes (onUpdate 1 ?s) = [(''timeline.uTime'', TIMELINE_STEP)]"
    unfolding c MIN_plus_STEP using w STEP_less_MAXS
    by (simp add: data_set_uTime_simps)
  with f big show ?thesis by simp
qed

text \<open>
  C2, as amended: line 454 is an \<open>if\<close>, not a loop. When not paused and not dragging,
  a tick whose elapsed time brings the accumulator to \<open>STEP\<close> or more performs exactly
  one advancement step, however large \<open>dt\<close> is: one write of the next value through
  the store, and \<open>STEP\<close> subtracted from the accumulator once, the rest staying there
  for the ticks that follow. A tick that leaves the accumulator below \<open>STEP\<close> writes
  nothing. Either way the tick makes at most one write.
\<close>

theorem one_step_per_tick:
  assumes "\<not> isDragging s" and "\<not> isPaused s"
  shows "(AUTOPLAY_INTERVAL \<le> fadd (autoplayAccumulator s) (fmul dt (1 / 2)) \<longrightarrow>
           writes (onUpdate dt s) = writes s @
             [(''timeline.uTime'',
               if fsub TIMELINE_MAX TIMELINE_STEP < fadd (currentTimelineValue s) TIMELINE_STEP
               then TIMELINE_MIN else fadd (currentTimelineValue s) TIMELINE_STEP)] \<and>
           autoplayAccumulator (onUpdate dt s) =
             fsub (fadd (autoplayAccumulator s) (fmul dt (1 / 2))) AUTOPLAY_INTERVAL) \<and>
         (fadd (autoplayAccumulator s) (fmul dt (1 / 2)) < AUTOPLAY_INTERVAL \<longrightarrow>
           writes (onUpdate dt s) = writes s \<and>
           autoplayAccumulator (onUpdate dt s) = fadd (autoplayAccumulator s) (fmul dt (1 / 2))) \<and>
         length (writes (onUpdate dt s)) \<le> length (writes s) + 1"
proof (cases "AUTOPLAY_INTERVAL \<le> fadd (autoplayAccumulator s) (fmul dt (1 / 2))")
  case True
  from onUpdate_fires[OF assms True] True show ?thesis
    by (simp add: data_set_uTime_simps)
next
  case False
  then have "fadd (autoplayAccumulator s) (fmul dt (1 / 2)) < AUTOPLAY_INTERVAL" by simp
  from onUpdate_below[OF assms this] False show ?thesis by simp
qed

text \<open>C2 as amended, at the tick of one second: one write, and an accumulator that
  is still above the interval afterwards.\<close>

theorem one_step_per_tick_witness:
  "AUTOPLAY_INTERVAL \<le> fadd (autoplayAccumulator (playing_at TIMELINE_MIN)) (fmul 1 (1 / 2)) \<and>
   writes (onUpdate 1 (playing_at TIMELINE_MIN)) = [(''timeline.uTime'', TIMELINE_STEP)] \<and>
   autoplayAccumulator (onUpdate 1 (playing_at TIMELINE_MIN)) = fsub (1 / 2) AUTOPLAY_INTERVAL \<and>
   AUTOPLAY_INTERVAL \<le> autoplayAccumulator (onUpdate 1 (playing_at TIMELINE_MIN))"
proof -
  let ?s = "playing_at TIMELINE_MIN"
  have f: "\<not> isDragging ?s" "\<not> isPaused ?s" and a: "autoplayAccumulator ?s = 0"
    and c: "currentTimelineValue ?s = TIMELINE_MIN" and w: "writes ?s = []"
    by (simp_all add: playing_at_def)
  have fire: "AUTOPLAY_INTERVAL \<le> fadd (autoplayAccumulator ?s) (fmul 1 (1 / 2))"
    unfolding a half_second by (rule INTERVAL_le_half)
  have r: "fsub (1 / 2) AUTOPLAY_INTERVAL = 1080863910568919 / 2251799813685248"
    unfolding AUTOPLAY_INTERVAL_def STEP_val by code_simp
  have left: "AUTOPLAY_INTERVAL \<le> fsub (1 / 2) AUTOPLAY_INTERVAL"
    unfolding r unfolding AUTOPLAY_INTERVAL_def STEP_val by simp
  from one_step_per_tick[OF f, of 1] fire left STEP_less_MAXS
  show ?thesis
    by (simp add: a c w half_second MIN_plus_STEP)
qed

text \<open>
  C5: a tick while dragging or paused sets the accumulator to 0 and writes nothing; and
  from \<open>currentValue = MIN\<close> with accumulator 0, playing and not dragging, ticks whose
  accumulated scaled time stays below \<open>STEP\<close> and then reaches it make exactly one
  write, \<open>set("timeline.uTime", MIN + STEP)\<close>, after which the current value is
  \<open>STEP\<close>, while the same ticks with a drag in progress make no write.
\<close>

theorem autoplay_pause_drag_exclusion:
  "(isDragging s \<or> isPaused s \<longrightarrow>
      autoplayAccumulator (onUpdate dt s) = 0 \<and> writes (onUpdate dt s) = writes s \<and>
      currentTimelineValue (onUpdate dt s) = currentTimelineValue s) \<and>
   (\<not> isDragging s \<and> \<not> isPaused s \<and> currentTimelineValue s = TIMELINE_MIN \<and>
    autoplayAccumulator s = 0 \<and>
    (\<forall>n\<le>length dts. accumulated 0 (take n dts) < TIMELINE_STEP) \<and>
    TIMELINE_STEP \<le> accumulated 0 (dts @ [dt]) \<longrightarrow>
      writes (run_ticks (dts @ [dt]) s) =
        writes s @ [(''timeline.uTime'', fadd TIMELINE_MIN TIMELINE_STEP)] \<and>
      fadd TIMELINE_MIN TIMELINE_STEP = TIMELINE_STEP \<and>
      currentTimelineValue (run_ticks (dts @ [dt]) s) = TIMELINE_STEP \<and>
      writes (run_ticks (dts @ [dt]) (s\<lparr>isDragging := True\<rparr>)) = writes s)"
proof (intro conjI impI)
  assume "isDragging s \<or> isPaused s"
  then show "autoplayAccumulator (onUpdate dt s) = 0" "writes (onUpdate dt s) = writes s"
    "currentTimelineValue (onUpdate dt s) = currentTimelineValue s"
    by (simp_all add: onUpdate_idle)
next
  assume h: "\<not> isDragging s \<and> \<not> isPaused s \<and> currentTimelineValue s = TIMELINE_MIN \<and>
    autoplayAccumulator s = 0 \<and>
    (\<forall>n\<le>length dts. accumulated 0 (take n dts) < TIMELINE_STEP) \<and>
    TIMELINE_STEP \<le> accumulated 0 (dts @ [dt])"
  then have f: "\<not> isDragging s" "\<not> isPaused s" and c: "currentTimelineValue s = TIMELINE_MIN"
    and a: "autoplayAccumulator s = 0"
    and below: "\<forall>n\<le>length dts. accumulated 0 (take n dts) < TIMELINE_STEP"
    and reach: "TIMELINE_STEP \<le> accumulated 0 (dts @ [dt])"
    by simp_all
  let ?s1 = "s\<lparr>autoplayAccumulator := accumulated 0 dts\<rparr>"
  have "\<forall>n. 1 \<le> n \<and> n \<le> length dts \<longrightarrow>
      accumulated (autoplayAccumulator s) (take n dts) < AUTOPLAY_INTERVAL"
    using below a by (simp add: AUTOPLAY_INTERVAL_def)
  from run_ticks_below[OF f this] have r1: "run_ticks dts s = ?s1" using a by simp
  have fire: "AUTOPLAY_INTERVAL \<le> fadd (autoplayAccumulator ?s1) (fmul dt (1 / 2))"
    using reach by (simp add: accumulated_append AUTOPLAY_INTERVAL_def)
  have f1: "\<not> isDragging ?s1" "\<not> isPaused ?s1" using f by simp_all
  have nw: "\<not> fsub TIMELINE_MAX TIMELINE_STEP < TIMELINE_STEP"
    using STEP_less_MAXS by simp
  have r2: "run_ticks (dts @ [dt]) s = onUpdate dt ?s1"
    by (simp add: run_ticks_append r1)
  show "writes (run_ticks (dts @ [dt]) s) =
      writes s @ [(''timeline.uTime'', fadd TIMELINE_MIN TIMELINE_STEP)]"
    unfolding r2 onUpdate_fires[OF f1 fire]
    using c nw by (simp add: data_set_uTime_simps MIN_plus_STEP)
  show "fadd TIMELINE_MIN TIMELINE_STEP = TIMELINE_STEP" by (rule MIN_plus_STEP)
  show "currentTimelineValue (run_ticks (dts @ [dt]) s) = TIMELINE_STEP"
    unfolding r2 onUpdate_fires[OF f1 fire]
    using c nw by (simp add: data_set_uTime_simps MIN_plus_STEP clampTime_STEP)
  show "writes (run_ticks (dts @ [dt]) (s\<lparr>isDragging := True\<rparr>)) = writes s"
    using run_ticks_idle[of "s\<lparr>isDragging := True\<rparr>" "dts @ [dt]"] by simp
qed

text \<open>C5 at three frames of 16 ms: the third one reaches the interval.\<close>

theorem autoplay_pause_drag_exclusion_witness:
  "accumulated 0 [frame_16ms, frame_16ms] < TIMELINE_STEP \<and>
   TIMELINE_STEP \<le> accumulated 0 [frame_16ms, frame_16ms, frame_16ms] \<and>
   writes (run_ticks [frame_16ms, frame_16ms, frame_16ms] (playing_at TIMELINE_MIN))
     = [(''timeline.uTime'', TIMELINE_STEP)] \<and>
   currentTimelineValue (run_ticks [frame_16ms, frame_16ms, frame_16ms] (playing_at TIMELINE_MIN))
     = TIMELINE_STEP \<and>
   writes (run_ticks [frame_16ms, frame_16ms, frame_16ms]
     ((playing_at TIMELINE_MIN)\<lparr>isDragging := True\<rparr>)) = [] \<and>
   autoplayAccumulator (onUpdate frame_16ms ((playing_at TIMELINE_MIN)\<lparr>isPaused := True\<rparr>)) = 0"
proof -
  let ?s = "playing_at TIMELINE_MIN"
  let ?d = frame_16ms
  have f: "\<not> isDragging ?s \<and> \<not> isPaused ?s \<and> currentTimelineValue ?s = TIMELINE_MIN \<and>
      autoplayAccumulator ?s = 0" and w: "writes ?s = []"
    by (simp_all add: playing_at_def)
  have d: "frame_16ms = 1152921504606847 / 72057594037927936"
    unfolding frame_16ms_def by code_simp
  have a1: "accumulated 0 [?d] = 1152921504606847 / 144115188075855872"
    unfolding d by code_simp
  have a2: "accumulated 0 [?d, ?d] = 1152921504606847 / 72057594037927936"
    unfolding d by code_simp
  have a3: "accumulated 0 [?d, ?d, ?d] = 3458764513820541 / 144115188075855872"
    unfolding d by code_simp
  have lt: "accumulated 0 (take n [?d, ?d]) < TIMELINE_STEP" if "n \<le> length [?d, ?d]" for n
  proof -
    from that have "n = 0 \<or> n = 1 \<or> n = 2" by auto
    then show ?thesis
      using a1 a2 by (auto simp: STEP_val)
  qed
  have below: "\<forall>n\<le>length [?d, ?d]. accumulated 0 (take n [?d, ?d]) < TIMELINE_STEP"
    using lt by blast
  have lt2: "accumulated 0 [?d, ?d] < TIMELINE_STEP" unfolding a2 STEP_val by simp
  have reach: "TIMELINE_STEP \<le> accumulated 0 ([?d, ?d] @ [?d])"
    using a3 by (simp add: STEP_val)
  have idle: "isDragging (?s\<lparr>isPaused := True\<rparr>) \<or> isPaused (?s\<lparr>isPaused := True\<rparr>)" by simp
  from autoplay_pause_drag_exclusion[where s = ?s and dts = "[?d, ?d]" and dt = ?d] f below reach
  have "writes (run_ticks ([?d, ?d] @ [?d]) ?s) =
        writes ?s @ [(''timeline.uTime'', fadd TIMELINE_MIN TIMELINE_STEP)] \<and>
      fadd TIMELINE_MIN TIMELINE_STEP = TIMELINE_STEP \<and>
      currentTimelineValue (run_ticks ([?d, ?d] @ [?d]) ?s) = TIMELINE_STEP \<and>
      writes (run_ticks ([?d, ?d] @ [?d]) (?s\<lparr>isDragging := True\<rparr>)) = writes ?s"
    by blast
  moreover from autoplay_pause_drag_exclusion[where s = "?s\<lparr>isPaused := True\<rparr>" and dt = ?d] idle
  have "autoplayAccumulator (onUpdate ?d (?s\<lparr>isPaused := True\<rparr>)) = 0" by blast
  ultimately show ?thesis using lt2 reach w by simp
qed

text \<open>
  C6: at \<open>currentValue = MAX - STEP\<close>, which is the largest value \<open>clampTime\<close>
  returns and the one it returns for \<open>MAX\<close>, playing and not dragging, a tick that
  takes a step writes \<open>MIN\<close>, which is not \<open>MAX\<close>, and the current value
  becomes \<open>MIN\<close>.
\<close>

theorem autoplay_wraps_to_MIN:
  assumes "\<not> isDragging s" and "\<not> isPaused s"
    and "currentTimelineValue s = fsub TIMELINE_MAX TIMELINE_STEP"
    and "AUTOPLAY_INTERVAL \<le> fadd (autoplayAccumulator s) (fmul dt (1 / 2))"
  shows "writes (onUpdate dt s) = writes s @ [(''timeline.uTime'', TIMELINE_MIN)] \<and>
         currentTimelineValue (onUpdate dt s) = TIMELINE_MIN \<and>
         TIMELINE_MIN \<noteq> TIMELINE_MAX \<and>
         clampTime v \<le> fsub TIMELINE_MAX TIMELINE_STEP \<and>
         clampTime (Num TIMELINE_MAX) = fsub TIMELINE_MAX TIMELINE_STEP"
proof -
  have over: "fsub TIMELINE_MAX TIMELINE_STEP < fadd (currentTimelineValue s) TIMELINE_STEP"
    unfolding assms(3) MAXS_plus_STEP using MAXS_bounds(2) .
  have "clampTime (Num TIMELINE_MIN) = TIMELINE_MIN"
    using clampTime_zero by (simp add: TIMELINE_MIN_def)
  with onUpdate_fires[OF assms(1,2,4)] over clampTime_range(2)[of v] clampTime_MAX
  show ?thesis
    by (simp add: data_set_uTime_simps TIMELINE_MIN_def TIMELINE_MAX_def)
qed

text \<open>C6 at a tick of one second.\<close>

theorem autoplay_wraps_to_MIN_witness:
  "currentTimelineValue (playing_at (fsub TIMELINE_MAX TIMELINE_STEP)) = fsub TIMELINE_MAX TIMELINE_STEP \<and>
   AUTOPLAY_INTERVAL \<le>
     fadd (autoplayAccumulator (playing_at (fsub TIMELINE_MAX TIMELINE_STEP))) (fmul 1 (1 / 2)) \<and>
   writes (onUpdate 1 (playing_at (fsub TIMELINE_MAX TIMELINE_STEP))) = [(''timeline.uTime'', TIMELINE_MIN)] \<and>
   currentTimelineValue (onUpdate 1 (playing_at (fsub TIMELINE_MAX TIMELINE_STEP))) = TIMELINE_MIN"
proof -
  let ?s = "playing_at (fsub TIMELINE_MAX TIMELINE_STEP)"
  have f: "\<not> isDragging ?s" "\<not> isPaused ?s" and a: "autoplayAccumulator ?s = 0"
    and c: "currentTimelineValue ?s = fsub TIMELINE_MAX TIMELINE_STEP" and w: "writes ?s = []"
    by (simp_all add: playing_at_def)
  have fire: "AUTOPLAY_INTERVAL \<le> fadd (autoplayAccumulator ?s) (fmul 1 (1 / 2))"
    unfolding a half_second by (rule INTERVAL_le_half)
  from autoplay_wraps_to_MIN[OF f c fire, of "Num 0"] fire c w
  show ?thesis by simp
qed

section \<open>Properties of the render sink\<close>

text \<open>
  C9: for every value and every target, with or without a component, an instance or an
  owning entity. For every target built the way the program builds its own, and for an
  absent target, \<open>applyDynamicToEntity\<close> raises nothing: if the target, its component,
  the instance, the component's \<open>enabled\<close> flag or the owning entity's \<open>enabled\<close>
  flag is absent or false it does nothing; otherwise it calls the instance's
  \<open>applyDynamicState\<close> with the value, once. The same holds for every other target,
  including one whose component has no owning entity and no instance or no true
  \<open>enabled\<close> flag, with one exception: \<open>applyDynamicToEntity\<close> raises for a
  component that has an instance and a true \<open>enabled\<close> flag but no owning entity,
  and only for it. The program cannot pass such a target: the one call (line 409) passes
  \<open>gs1\<close>, the entity that \<open>createEntity\<close> has built with \<open>addComponent\<close>, and a
  component of the engine holds the entity it was added to.
\<close>

theorem applyDynamicToEntity_skips_or_forwards:
  "applyDynamicToEntity (Some (attached en component)) v =
     (case ready (Some (attached en component)) of None \<Rightarrow> Inr [] | Some i \<Rightarrow> Inr [(i, v)]) \<and>
   applyDynamicToEntity None v = Inr [] \<and>
   (\<not> detached entity \<longrightarrow>
      applyDynamicToEntity entity v \<noteq> Inl TypeError \<and>
      applyDynamicToEntity entity v =
        (case ready entity of None \<Rightarrow> Inr [] | Some i \<Rightarrow> Inr [(i, v)])) \<and>
   (detached entity \<longrightarrow> applyDynamicToEntity entity v = Inl TypeError)"
proof -
  have "applyDynamicToEntity (Some (attached en component)) v =
     (case ready (Some (attached en component)) of None \<Rightarrow> Inr [] | Some i \<Rightarrow> Inr [(i, v)])"
    by (auto simp: applyDynamicToEntity_def attached_def ready_def truthy_def Let_def
        split: option.splits)
  moreover have "applyDynamicToEntity None v = Inr []"
    by (simp add: applyDynamicToEntity_def)
  moreover have "\<not> detached entity \<longrightarrow>
      applyDynamicToEntity entity v \<noteq> Inl TypeError \<and>
      applyDynamicToEntity entity v =
        (case ready entity of None \<Rightarrow> Inr [] | Some i \<Rightarrow> Inr [(i, v)])"
    by (auto simp: applyDynamicToEntity_def detached_def ready_def truthy_def Let_def
        split: option.splits)
  moreover have "detached entity \<longrightarrow> applyDynamicToEntity entity v = Inl TypeError"
    by (auto simp: applyDynamicToEntity_def detached_def truthy_def Let_def
        split: option.splits)
  ultimately show ?thesis by blast
qed

text \<open>C9 at an enabled target, which is one built by the program; at targets that are not
  enabled: the owning entity disabled, the component disabled and without owning entity,
  no instance and no owning entity, no component, no target; and at the shape that the
  engine does not build.\<close>

theorem applyDynamicToEntity_witness:
  "live_target = attached (Some True) (Some (Some 0, Some True)) \<and>
   \<not> detached (Some live_target) \<and>
   applyDynamicToEntity (Some live_target) (1::int) = Inr [(0, 1)] \<and>
   \<not> detached (Some disabled_target) \<and>
   applyDynamicToEntity (Some disabled_target) (1::int) = Inr [] \<and>
   \<not> detached (Some switched_off) \<and> applyDynamicToEntity (Some switched_off) (1::int) = Inr [] \<and>
   \<not> detached (Some torn_down) \<and> applyDynamicToEntity (Some torn_down) (1::int) = Inr [] \<and>
   \<not> detached (Some bare) \<and> applyDynamicToEntity (Some bare) (1::int) = Inr [] \<and>
   \<not> detached None \<and> applyDynamicToEntity None (1::int) = Inr [] \<and>
   detached (Some orphan) \<and> applyDynamicToEntity (Some orphan) (1::int) = Inl TypeError"
proof -
  have a: "live_target = attached (Some True) (Some (Some 0, Some True))"
    by (simp add: live_target_def attached_def)
  have d: "\<not> detached (Some live_target)" "\<not> detached (Some disabled_target)"
    "\<not> detached (Some switched_off)" "\<not> detached (Some torn_down)" "\<not> detached (Some bare)"
    "\<not> detached None" "detached (Some orphan)"
    by (simp_all add: detached_def live_target_def disabled_target_def switched_off_def
        torn_down_def bare_def orphan_def truthy_def)
  have r: "ready (Some live_target) = Some 0" "ready (Some disabled_target) = None"
    "ready (Some switched_off) = None" "ready (Some torn_down) = None"
    "ready (Some bare) = None" "ready None = None"
    by (simp_all add: ready_def live_target_def disabled_target_def switched_off_def
        torn_down_def bare_def)
  from applyDynamicToEntity_skips_or_forwards[of _ _ "1::int" "Some live_target"]
    applyDynamicToEntity_skips_or_forwards[of _ _ "1::int" "Some disabled_target"]
    applyDynamicToEntity_skips_or_forwards[of _ _ "1::int" "Some switched_off"]
    applyDynamicToEntity_skips_or_forwards[of _ _ "1::int" "Some torn_down"]
    applyDynamicToEntity_skips_or_forwards[of _ _ "1::int" "Some bare"]
    applyDynamicToEntity_skips_or_forwards[of _ _ "1::int" None]
    applyDynamicToEntity_skips_or_forwards[of _ _ "1::int" "Some orphan"] a d r
  show ?thesis by simp
qed

end
